theory Spec2Isabelle
  imports Main
begin

section \<open>Exceptions, outcomes and futures\<close>

text \<open>
  The exception classes that the wrappers of \<^verbatim>\<open>promise.py\<close> tell apart:
  \<^verbatim>\<open>asyncio.CancelledError\<close>, the instances of \<^verbatim>\<open>Exception\<close> (application errors;
  the string is the message) and the instances of \<^verbatim>\<open>BaseException\<close> that are neither
  (\<^verbatim>\<open>GeneratorExit\<close>, \<^verbatim>\<open>SystemExit\<close>, user classes deriving from \<^verbatim>\<open>BaseException\<close>).
  \<^verbatim>\<open>RejectionPromise._wrapper\<close> tests \<^verbatim>\<open>CancelledError\<close> before \<^verbatim>\<open>Exception\<close>, so the
  model is the same whether \<^verbatim>\<open>CancelledError\<close> derives from \<^verbatim>\<open>Exception\<close> (Python 3.7)
  or from \<^verbatim>\<open>BaseException\<close> (Python 3.8 and later).
\<close>

datatype exc = CancelledError | Exception string | BaseException string

text \<open>
  What an \<^verbatim>\<open>await\<close> produces: a value (\<open>Inr\<close>) or a raised exception (\<open>Inl\<close>).
  A future is pending (\<open>None\<close>) or holds what awaiting it produces. A cancelled future
  is the one whose \<^verbatim>\<open>await\<close> raises \<^verbatim>\<open>CancelledError\<close>: a task whose coroutine raises
  \<^verbatim>\<open>CancelledError\<close> becomes cancelled, and \<^verbatim>\<open>shield\<close> cancels its outer future when the
  inner one is cancelled, so no code modelled here tells the two apart.
\<close>

type_synonym 'v outcome = "exc + 'v"
type_synonym 'v state = "'v outcome option"

abbreviation Pending :: "'v state" where
  "Pending \<equiv> None"

abbreviation Fulfilled :: "'v \<Rightarrow> 'v state" where
  "Fulfilled v \<equiv> Some (Inr v)"

abbreviation Rejected :: "exc \<Rightarrow> 'v state" where
  "Rejected e \<equiv> Some (Inl e)"

abbreviation Cancelled :: "'v state" where
  "Cancelled \<equiv> Some (Inl CancelledError)"

section \<open>Callbacks\<close>

text \<open>
  A callback raises (\<open>Inl\<close>) or returns (\<open>Inr\<close>) either a plain value or an awaitable.
  \<^verbatim>\<open>ensure_future\<close> raises \<^verbatim>\<open>TypeError\<close> exactly on the plain values. An awaitable is
  given by the state of the future \<^verbatim>\<open>ensure_future\<close> returns for it: already done, or
  pending, to be settled by a later event. A pending one is taken to be a future on which
  \<^verbatim>\<open>cancel()\<close> takes effect at once, such as the one \<^verbatim>\<open>loop.create_future()\<close> returns.
\<close>

datatype 'v returned = Plain 'v | Awaitable "'v state"

text \<open>The three chain-link classes, each with the callback it was built with.\<close>

datatype 'v variant =
    FulfillmentPromise "'v \<Rightarrow> exc + 'v returned"
  | RejectionPromise "exc \<Rightarrow> exc + 'v returned"
  | ResolutionPromise "unit \<Rightarrow> exc + 'v returned"

text \<open>The argument of one callback invocation; invocations are logged in order.\<close>

datatype 'v arg = ArgValue 'v | ArgExc exc | NoArgs

section \<open>Promises and chain links\<close>

text \<open>
  A task that waits in \<^verbatim>\<open>await promise\<close> waits for one future object, and \<^verbatim>\<open>Task.cancel\<close>
  cancels that object. Two futures can stand behind the parameter \<^verbatim>\<open>promise\<close> of
  \<^verbatim>\<open>_wrapper\<close>: the one of the promise the link is derived from (\<open>Inner\<close>), or the outer
  future made for it by \<^verbatim>\<open>shield\<close> (\<open>Outer\<close>).
\<close>

datatype future_ref = Inner | Outer

text \<open>
  \<^verbatim>\<open>asyncio.shield(inner)\<close> returns a new future, the outer one, which receives the outcome
  of \<open>inner\<close> through a done-callback; cancelling the outer future does not cancel
  \<open>inner\<close>. (\<^verbatim>\<open>shield\<close> hands back \<open>inner\<close> itself only when that is already done;
  the task \<^verbatim>\<open>ensure_future\<close> makes for a promise is not done when it is made.)
\<close>

definition shield :: "future_ref \<Rightarrow> future_ref" where
  "shield inner = Outer"

text \<open>
  Where the coroutine \<^verbatim>\<open>_wrapper\<close> of a link stands: not yet started, suspended in
  \<^verbatim>\<open>await promise\<close>, or suspended in \<^verbatim>\<open>await result_fut\<close> inside \<^verbatim>\<open>resolve_awaitable\<close>.
  The last carries what the \<^verbatim>\<open>try\<close> block of \<^verbatim>\<open>ResolutionPromise._wrapper\<close> is about to
  return or raise while its \<^verbatim>\<open>finally\<close> block runs (\<open>None\<close> in the other two classes).
\<close>

datatype 'v pc = Created | AwaitPromise | AwaitResult "'v outcome option"

record 'v promise =
  fut :: "'v state"
  is_managed :: bool

text \<open>
  A chain link: \<open>fut\<close> is the state of the task running \<^verbatim>\<open>_wrapper\<close>, \<open>awaited\<close> the
  future passed to \<^verbatim>\<open>_wrapper\<close> as \<^verbatim>\<open>promise\<close>, \<open>outer\<close> the state of the future returned
  by \<^verbatim>\<open>shield(promise)\<close>, \<open>must_cancel\<close> the task's \<^verbatim>\<open>_must_cancel\<close>,
  \<open>result_fut\<close> the future of \<^verbatim>\<open>resolve_awaitable\<close>. \<open>direct_cancellation\<close> is the
  attribute of \<^verbatim>\<open>ResolutionPromise\<close> (unused in the other classes). \<open>calls\<close> logs the
  invocations of the callback.
\<close>

record 'v chain_promise = "'v promise" +
  variant :: "'v variant"
  awaited :: future_ref
  outer :: "'v state"
  pc :: "'v pc"
  must_cancel :: bool
  result_fut :: "'v state"
  direct_cancellation :: bool
  calls :: "'v arg list"

text \<open>
  \<^verbatim>\<open>Promise.__init__\<close>: \<^verbatim>\<open>self._is_managed = not self._warn_no_management\<close>. The class
  attribute is \<^verbatim>\<open>True\<close> in \<^verbatim>\<open>Promise\<close> and \<^verbatim>\<open>False\<close> in \<^verbatim>\<open>ChainPromise\<close>.
\<close>

definition Promise_init :: "bool \<Rightarrow> 'v state \<Rightarrow> 'v promise" where
  "Promise_init warn_no_management st = \<lparr>fut = st, is_managed = \<not> warn_no_management\<rparr>"

definition root :: "'v state \<Rightarrow> 'v promise" where
  "root st = Promise_init True st"

text \<open>
  \<^verbatim>\<open>ChainPromise.__init__\<close>: the task of \<^verbatim>\<open>self._wrapper(shield(promise), callback)\<close> is
  created, not yet started: the wrapper is given the future \<^verbatim>\<open>shield\<close> returns for the
  parent, not the parent. That outer future is pending until the parent's outcome is
  copied into it. \<^verbatim>\<open>ResolutionPromise.__init__\<close> sets
  \<^verbatim>\<open>_direct_cancellation = False\<close>.
\<close>

definition ChainPromise_init :: "'v variant \<Rightarrow> 'v chain_promise" where
  "ChainPromise_init k =
     promise.extend (Promise_init False Pending)
       (chain_promise.fields k (shield Inner) Pending Created False Pending False [])"

text \<open>\<^verbatim>\<open>Promise.__enter__\<close>.\<close>

definition enter :: "('v, 'z) promise_scheme \<Rightarrow> ('v, 'z) promise_scheme" where
  "enter self = self\<lparr>is_managed := True\<rparr>"

text \<open>
  \<^verbatim>\<open>Promise._assert_management\<close>: the second argument is the list of contexts the loop's
  exception handler has been called with. The message stands for the f-string.
\<close>

definition assert_management :: "('v, 'z) promise_scheme \<Rightarrow> string list \<Rightarrow> string list" where
  "assert_management self handler =
     (if is_managed self then handler
      else handler @ [''is being chained without proper life-cycle management.''])"

text \<open>\<^verbatim>\<open>Promise.then\<close>, \<^verbatim>\<open>Promise.catch\<close>, \<^verbatim>\<open>Promise.lastly\<close>.\<close>

definition Promise_then ::
  "('v, 'z) promise_scheme \<Rightarrow> ('v \<Rightarrow> exc + 'v returned) \<Rightarrow> string list
     \<Rightarrow> 'v chain_promise \<times> string list" where
  "Promise_then self on_fulfilled handler =
     (ChainPromise_init (FulfillmentPromise on_fulfilled), assert_management self handler)"

definition Promise_catch ::
  "('v, 'z) promise_scheme \<Rightarrow> (exc \<Rightarrow> exc + 'v returned) \<Rightarrow> string list
     \<Rightarrow> 'v chain_promise \<times> string list" where
  "Promise_catch self on_reject handler =
     (ChainPromise_init (RejectionPromise on_reject), assert_management self handler)"

definition Promise_lastly ::
  "('v, 'z) promise_scheme \<Rightarrow> (unit \<Rightarrow> exc + 'v returned) \<Rightarrow> string list
     \<Rightarrow> 'v chain_promise \<times> string list" where
  "Promise_lastly self on_resolved handler =
     (ChainPromise_init (ResolutionPromise on_resolved), assert_management self handler)"

section \<open>The wrapper coroutines\<close>

text \<open>The coroutine returns or raises \<open>r\<close>: the task is done with it.\<close>

definition complete :: "'v chain_promise \<Rightarrow> 'v outcome \<Rightarrow> 'v chain_promise" where
  "complete l r = l\<lparr>fut := Some r\<rparr>"

text \<open>
  The wrapper resumes from \<^verbatim>\<open>await resolve_awaitable(...)\<close> with \<open>r\<close>. In
  \<^verbatim>\<open>FulfillmentPromise\<close> and \<^verbatim>\<open>RejectionPromise\<close> (\<open>saved = None\<close>) that is what it returns
  or raises. In \<^verbatim>\<open>ResolutionPromise\<close> the \<^verbatim>\<open>finally\<close> block ends: an exception raised in it
  replaces the outcome \<open>s\<close> of the \<^verbatim>\<open>try\<close> block, a value is discarded.
\<close>

definition after_result ::
  "'v outcome option \<Rightarrow> 'v chain_promise \<Rightarrow> 'v outcome \<Rightarrow> 'v chain_promise" where
  "after_result saved l r =
     (case saved of
        None \<Rightarrow> complete l r
      | Some s \<Rightarrow> (case r of Inl e \<Rightarrow> complete l (Inl e) | Inr _ \<Rightarrow> complete l s))"

text \<open>
  \<^verbatim>\<open>await resolve_awaitable(callback(...), self.loop)\<close>, from the result of the callback:
  an exception raised by the callback propagates; a value that is not awaitable is
  returned as it is; an awaitable is awaited, which suspends the wrapper when its future
  is pending.
\<close>

definition resolve_awaitable ::
  "'v outcome option \<Rightarrow> 'v chain_promise \<Rightarrow> exc + 'v returned \<Rightarrow> 'v chain_promise" where
  "resolve_awaitable saved l cb =
     (case cb of
        Inl e \<Rightarrow> complete l (Inl e)
      | Inr (Plain x) \<Rightarrow> after_result saved l (Inr x)
      | Inr (Awaitable a) \<Rightarrow>
          (case a of
             None \<Rightarrow> l\<lparr>pc := AwaitResult saved, result_fut := None\<rparr>
           | Some r \<Rightarrow> after_result saved (l\<lparr>result_fut := a\<rparr>) r))"

text \<open>
  \<^verbatim>\<open>FulfillmentPromise._wrapper\<close> of \<^verbatim>\<open>promise.py\<close>, from the point where
  \<^verbatim>\<open>await promise\<close> produces \<open>r\<close>:
  \<^verbatim>\<open>return await resolve_awaitable(on_fulfilled(await promise), self.loop)\<close>.
\<close>

definition FulfillmentPromise_wrapper ::
  "('v \<Rightarrow> exc + 'v returned) \<Rightarrow> 'v chain_promise \<Rightarrow> 'v outcome \<Rightarrow> 'v chain_promise" where
  "FulfillmentPromise_wrapper on_fulfilled l r =
     (case r of
        Inl e \<Rightarrow> complete l (Inl e)
      | Inr v \<Rightarrow>
          resolve_awaitable None (l\<lparr>calls := calls l @ [ArgValue v]\<rparr>) (on_fulfilled v))"

text \<open>
  \<^verbatim>\<open>RejectionPromise._wrapper\<close>: \<^verbatim>\<open>try: return await promise\<close>,
  \<^verbatim>\<open>except CancelledError: raise\<close>,
  \<^verbatim>\<open>except Exception as exc: return await resolve_awaitable(on_reject(exc), self.loop)\<close>.
  Any other exception matches no clause and propagates.
\<close>

definition RejectionPromise_wrapper ::
  "(exc \<Rightarrow> exc + 'v returned) \<Rightarrow> 'v chain_promise \<Rightarrow> 'v outcome \<Rightarrow> 'v chain_promise" where
  "RejectionPromise_wrapper on_reject l r =
     (case r of
        Inr v \<Rightarrow> complete l (Inr v)
      | Inl CancelledError \<Rightarrow> complete l (Inl CancelledError)
      | Inl (Exception m) \<Rightarrow>
          resolve_awaitable None (l\<lparr>calls := calls l @ [ArgExc (Exception m)]\<rparr>)
            (on_reject (Exception m))
      | Inl (BaseException m) \<Rightarrow> complete l (Inl (BaseException m)))"

text \<open>
  \<^verbatim>\<open>ResolutionPromise._wrapper\<close>: \<^verbatim>\<open>try: return await promise\<close>,
  \<^verbatim>\<open>finally: if not self._direct_cancellation:
  await resolve_awaitable(on_resolution(), self.loop)\<close>.
\<close>

definition ResolutionPromise_wrapper ::
  "(unit \<Rightarrow> exc + 'v returned) \<Rightarrow> 'v chain_promise \<Rightarrow> 'v outcome \<Rightarrow> 'v chain_promise" where
  "ResolutionPromise_wrapper on_resolution l r =
     (if \<not> direct_cancellation l
      then resolve_awaitable (Some r) (l\<lparr>calls := calls l @ [NoArgs]\<rparr>) (on_resolution ())
      else complete l r)"

text \<open>The abstract method \<^verbatim>\<open>ChainPromise._wrapper\<close>, dispatched on the class.\<close>

definition wrapper :: "'v chain_promise \<Rightarrow> 'v outcome \<Rightarrow> 'v chain_promise" where
  "wrapper l r =
     (case variant l of
        FulfillmentPromise on_fulfilled \<Rightarrow> FulfillmentPromise_wrapper on_fulfilled l r
      | RejectionPromise on_reject \<Rightarrow> RejectionPromise_wrapper on_reject l r
      | ResolutionPromise on_resolution \<Rightarrow> ResolutionPromise_wrapper on_resolution l r)"

section \<open>The scheduler: tasks, shield, cancellation\<close>

text \<open>
  One step of the link's task, run by the event loop. A done task is not stepped. The
  first step throws \<^verbatim>\<open>CancelledError\<close> into the coroutine before its body starts when
  \<^verbatim>\<open>_must_cancel\<close> is set; otherwise the body runs up to \<^verbatim>\<open>await promise\<close>, which
  suspends when the outer future is pending and goes on when it is done. A suspended
  task is woken only once the future it waits for is done; it resumes with
  \<^verbatim>\<open>CancelledError\<close> when \<^verbatim>\<open>_must_cancel\<close> is set and with the future's outcome otherwise.
  In \<^verbatim>\<open>await result_fut\<close> whatever is raised or returned goes to the caller of
  \<^verbatim>\<open>resolve_awaitable\<close>.
\<close>

definition Task_step :: "'v chain_promise \<Rightarrow> 'v chain_promise" where
  "Task_step l =
     (if fut l \<noteq> None then l
      else case pc l of
        Created \<Rightarrow>
          (if must_cancel l then complete (l\<lparr>must_cancel := False\<rparr>) (Inl CancelledError)
           else case outer l of
                  None \<Rightarrow> l\<lparr>pc := AwaitPromise\<rparr>
                | Some r \<Rightarrow> wrapper l r)
      | AwaitPromise \<Rightarrow>
          (case outer l of
             None \<Rightarrow> l
           | Some r \<Rightarrow>
               wrapper (l\<lparr>must_cancel := False\<rparr>)
                 (if must_cancel l then Inl CancelledError else r))
      | AwaitResult saved \<Rightarrow>
          (case result_fut l of
             None \<Rightarrow> l
           | Some r \<Rightarrow>
               after_result saved (l\<lparr>must_cancel := False\<rparr>)
                 (if must_cancel l then Inl CancelledError else r)))"

text \<open>
  \<^verbatim>\<open>Task.cancel\<close>: \<^verbatim>\<open>False\<close> on a done task. Otherwise the future the task waits for is
  cancelled when it is still pending (the task then wakes with \<^verbatim>\<open>CancelledError\<close>), and
  \<^verbatim>\<open>_must_cancel\<close> is set when there is no such future or it is already done. The future
  waited for in \<^verbatim>\<open>await promise\<close> is read and written here through the field \<open>outer\<close>;
  which future object that is, is settled by \<open>on_task\<close> below.
\<close>

definition Task_cancel :: "'v chain_promise \<Rightarrow> bool \<times> 'v chain_promise" where
  "Task_cancel l =
     (if fut l \<noteq> None then (False, l)
      else case pc l of
        Created \<Rightarrow> (True, l\<lparr>must_cancel := True\<rparr>)
      | AwaitPromise \<Rightarrow>
          (case outer l of
             None \<Rightarrow> (True, l\<lparr>outer := Cancelled\<rparr>)
           | Some _ \<Rightarrow> (True, l\<lparr>must_cancel := True\<rparr>))
      | AwaitResult _ \<Rightarrow>
          (case result_fut l of
             None \<Rightarrow> (True, l\<lparr>result_fut := Cancelled\<rparr>)
           | Some _ \<Rightarrow> (True, l\<lparr>must_cancel := True\<rparr>)))"

text \<open>
  Modelled from the spec: \<^verbatim>\<open>cancel\<close> of the abstract promise class
  (\<^verbatim>\<open>abstract/promise.py\<close>, not among the sources). It requests cancellation of the
  underlying computation and returns whether the request was accepted, false if already
  terminal: the cancellation of the task \<^verbatim>\<open>_fut\<close>.
\<close>

definition Promise_cancel :: "'v chain_promise \<Rightarrow> bool \<times> 'v chain_promise" where
  "Promise_cancel l = Task_cancel l"

text \<open>
  \<^verbatim>\<open>cancel\<close> of a link. \<^verbatim>\<open>ResolutionPromise.cancel\<close> is
  \<^verbatim>\<open>self._direct_cancellation = True; return super().cancel()\<close>; the other two classes
  inherit the method.
\<close>

definition cancel :: "'v chain_promise \<Rightarrow> bool \<times> 'v chain_promise" where
  "cancel l =
     (case variant l of
        ResolutionPromise _ \<Rightarrow> Promise_cancel (l\<lparr>direct_cancellation := True\<rparr>)
      | _ \<Rightarrow> Promise_cancel l)"

text \<open>
  The done-callback \<^verbatim>\<open>shield\<close> puts on the parent: the parent's outcome is copied into
  the outer future unless that one is already done (cancelled by the link's task).
\<close>

definition inner_done :: "'v state \<Rightarrow> 'v chain_promise \<Rightarrow> 'v chain_promise" where
  "inner_done inner l =
     (if inner \<noteq> None \<and> outer l = None then l\<lparr>outer := inner\<rparr> else l)"

text \<open>The awaitable returned by the callback settles, if it is awaited and pending.\<close>

definition awaitable_done :: "'v outcome \<Rightarrow> 'v chain_promise \<Rightarrow> 'v chain_promise" where
  "awaitable_done r l =
     (case pc l of
        AwaitResult _ \<Rightarrow> (if result_fut l = None then l\<lparr>result_fut := Some r\<rparr> else l)
      | _ \<Rightarrow> l)"

section \<open>A parent and a link under the event loop\<close>

text \<open>
  The events of the loop: the parent's computation ends with an outcome; the
  done-callback of \<^verbatim>\<open>shield\<close> runs; \<^verbatim>\<open>cancel()\<close> is called on the link; the link's task is
  stepped; the awaitable returned by the callback ends with an outcome.
\<close>

datatype 'v event =
    Settle "'v outcome"
  | Propagate
  | Cancel
  | Step
  | AwaitableSettle "'v outcome"

record 'v system =
  parent :: "'v promise"
  child :: "'v chain_promise"

text \<open>
  An operation of the link's task, run on the future the wrapper really awaits. With
  \<open>Outer\<close> that is the link's own outer future. With \<open>Inner\<close> it is the parent's
  future itself: the task reads the parent's state, and what the operation does to the
  awaited future, it does to the parent.
\<close>

definition on_task ::
  "('v chain_promise \<Rightarrow> 'v chain_promise) \<Rightarrow> 'v system \<Rightarrow> 'v system" where
  "on_task f s =
     (case awaited (child s) of
        Outer \<Rightarrow> s\<lparr>child := f (child s)\<rparr>
      | Inner \<Rightarrow>
          (let l = f ((child s)\<lparr>outer := fut (parent s)\<rparr>)
           in s\<lparr>child := l, parent := (parent s)\<lparr>fut := outer l\<rparr>\<rparr>))"

text \<open>
  One event. The done-callback of \<^verbatim>\<open>shield\<close> exists only where \<^verbatim>\<open>shield\<close> was called.
\<close>

definition step :: "'v system \<Rightarrow> 'v event \<Rightarrow> 'v system" where
  "step s e =
     (case e of
        Settle r \<Rightarrow>
          (if fut (parent s) = None then s\<lparr>parent := (parent s)\<lparr>fut := Some r\<rparr>\<rparr> else s)
      | Propagate \<Rightarrow>
          (case awaited (child s) of
             Outer \<Rightarrow> s\<lparr>child := inner_done (fut (parent s)) (child s)\<rparr>
           | Inner \<Rightarrow> s)
      | Cancel \<Rightarrow> on_task (\<lambda>l. snd (cancel l)) s
      | Step \<Rightarrow> on_task Task_step s
      | AwaitableSettle r \<Rightarrow> s\<lparr>child := awaitable_done r (child s)\<rparr>)"

fun run :: "'v system \<Rightarrow> 'v event list \<Rightarrow> 'v system" where
  "run s [] = s"
| "run s (e # es) = run (step s e) es"

text \<open>A link of the given class derived from a pending root.\<close>

definition derive :: "'v variant \<Rightarrow> 'v system" where
  "derive k = \<lparr>parent = root Pending, child = ChainPromise_init k\<rparr>"

text \<open>
  For comparison only, what \<^verbatim>\<open>ChainPromise.__init__\<close> does not do: the same link with the
  parent itself passed to \<^verbatim>\<open>_wrapper\<close>, that is without the call of \<^verbatim>\<open>shield\<close>.
\<close>

definition derive_unshielded :: "'v variant \<Rightarrow> 'v system" where
  "derive_unshielded k =
     \<lparr>parent = root Pending, child = (ChainPromise_init k)\<lparr>awaited := Inner\<rparr>\<rparr>"

section \<open>A chain of links under the event loop\<close>









section \<open>The fulfillment link of the chain-link package\<close>

text \<open>
  Modelled from the spec: \<^verbatim>\<open>cancel\<close> of \<^verbatim>\<open>ChainLinkPromise\<close> (\<^verbatim>\<open>chain_promise.py\<close>, not among
  the sources), the base class of \<^verbatim>\<open>FulfillmentPromise\<close> in
  \<^verbatim>\<open>chain_link/fulfillment.py\<close>. That wrapper clears \<^verbatim>\<open>_waiting_chain_result\<close> as soon as
  \<^verbatim>\<open>await promise\<close> has produced a value, before it invokes the callback, with the comment
  that simple cancellation is not allowed from this point forward; the spec has the link
  non-cancellable from then on, the ordinary cancellation acceptance path being
  disabled for the remainder of the computation. Between two events, a pending task that
  is past \<^verbatim>\<open>await promise\<close> is one suspended in the await of the callback's awaitable.
\<close>

definition ChainLinkPromise_cancel :: "'v chain_promise \<Rightarrow> bool \<times> 'v chain_promise" where
  "ChainLinkPromise_cancel l =
     (case pc l of AwaitResult _ \<Rightarrow> (False, l) | _ \<Rightarrow> Promise_cancel l)"

section \<open>Callbacks of the scenarios\<close>

definition add_one :: "int \<Rightarrow> exc + int returned" where
  "add_one x = Inr (Plain (x + 1))"

definition times_two :: "int \<Rightarrow> exc + int returned" where
  "times_two x = Inr (Plain (x * 2))"

text \<open>A callback that returns an awaitable still pending, such as a new future.\<close>

definition returns_pending :: "int \<Rightarrow> exc + int returned" where
  "returns_pending x = Inr (Awaitable Pending)"

definition recovered :: "exc \<Rightarrow> exc + string returned" where
  "recovered e = Inr (Plain ''recovered'')"

definition side_effect :: "int \<Rightarrow> unit \<Rightarrow> exc + int returned" where
  "side_effect x u = Inr (Plain x)"

definition failing_finalizer :: "unit \<Rightarrow> exc + int returned" where
  "failing_finalizer u = Inl (Exception ''cleanup failed'')"

section \<open>Invariants\<close>

text \<open>
  After \<^verbatim>\<open>cancel()\<close> no callback starts any more: in \<^verbatim>\<open>ResolutionPromise\<close> because the
  flag is set; in the other classes because the task is done, or is past the callback,
  or will resume with \<^verbatim>\<open>CancelledError\<close>.
\<close>

definition cancel_latched :: "'v chain_promise \<Rightarrow> bool" where
  "cancel_latched l \<longleftrightarrow>
     (\<exists>h. variant l = ResolutionPromise h) \<and> direct_cancellation l
     \<or> (\<forall>h. variant l \<noteq> ResolutionPromise h) \<and>
       (fut l \<noteq> None \<or> must_cancel l \<or> (\<exists>sv. pc l = AwaitResult sv)
        \<or> pc l = AwaitPromise \<and> outer l = Cancelled)"

text \<open>The wrapper is past \<^verbatim>\<open>await promise\<close>.\<close>

definition started :: "'v chain_promise \<Rightarrow> bool" where
  "started l \<longleftrightarrow> fut l \<noteq> None \<or> (\<exists>sv. pc l = AwaitResult sv)"


text \<open>
  A rejection link on which \<^verbatim>\<open>cancel()\<close> is never called: it waits for the parent; or
  for the awaitable its callback returned; or it is done with the parent's outcome, which
  is not an instance of \<^verbatim>\<open>Exception\<close>, the callback not invoked; or it is done after
  one invocation of the callback on the parent's \<^verbatim>\<open>Exception\<close>.
\<close>

definition inv_rejection ::
  "(exc \<Rightarrow> exc + 'v returned) \<Rightarrow> 'v state \<Rightarrow> 'v chain_promise \<Rightarrow> bool" where
  "inv_rejection g p l \<longleftrightarrow>
     variant l = RejectionPromise g \<and> \<not> must_cancel l \<and>
     (fut l = None \<and> (pc l = Created \<or> pc l = AwaitPromise) \<and> calls l = [] \<and>
        (outer l = None \<or> outer l = p)
      \<or> fut l = None \<and> pc l = AwaitResult None \<and>
        (\<exists>m. p = Rejected (Exception m) \<and> calls l = [ArgExc (Exception m)] \<and>
           g (Exception m) = Inr (Awaitable None))
      \<or> calls l = [] \<and> fut l = p \<and> p \<noteq> None \<and> (\<forall>m. p \<noteq> Rejected (Exception m))
      \<or> (\<exists>m. p = Rejected (Exception m) \<and> calls l = [ArgExc (Exception m)] \<and>
           fut l \<noteq> None \<and>
           (\<forall>e. g (Exception m) = Inl e \<longrightarrow> fut l = Rejected e) \<and>
           (\<forall>x. g (Exception m) = Inr (Plain x) \<longrightarrow> fut l = Fulfilled x) \<and>
           (\<forall>a. g (Exception m) = Inr (Awaitable a) \<longrightarrow>
              fut l = result_fut l \<and> (a \<noteq> None \<longrightarrow> result_fut l = a))))"

text \<open>
  A rejection link under any events, \<^verbatim>\<open>cancel()\<close> included: the outer future of
  \<^verbatim>\<open>shield\<close> is pending, cancelled, or holds the parent's outcome; and either the callback
  has not been invoked and the link is pending, cancelled, or done with a parent's
  outcome that is not an instance of \<^verbatim>\<open>Exception\<close>, or the callback has been invoked
  once, on the parent's \<^verbatim>\<open>Exception\<close>.
\<close>

definition inv_rejection_any ::
  "(exc \<Rightarrow> exc + 'v returned) \<Rightarrow> 'v state \<Rightarrow> 'v chain_promise \<Rightarrow> bool" where
  "inv_rejection_any g p l \<longleftrightarrow>
     variant l = RejectionPromise g \<and>
     (outer l = None \<or> outer l = Cancelled \<or> outer l = p) \<and>
     (calls l = [] \<and> (pc l = Created \<or> pc l = AwaitPromise) \<and>
        (fut l = None \<or> fut l = Cancelled \<or>
         fut l = p \<and> (\<forall>m. p \<noteq> Rejected (Exception m)))
      \<or> (\<exists>m. p = Rejected (Exception m) \<and> calls l = [ArgExc (Exception m)] \<and> started l))"

text \<open>
  A resolution link on which \<^verbatim>\<open>cancel()\<close> is never called: it waits for the parent; or
  the finalizer has been invoked once and the link waits for the awaitable it returned,
  the parent's outcome kept aside; or it is done after one invocation of the finalizer.
\<close>

definition inv_resolution ::
  "(unit \<Rightarrow> exc + 'v returned) \<Rightarrow> 'v state \<Rightarrow> 'v chain_promise \<Rightarrow> bool" where
  "inv_resolution h p l \<longleftrightarrow>
     variant l = ResolutionPromise h \<and> \<not> must_cancel l \<and> \<not> direct_cancellation l \<and>
     (fut l = None \<and> (pc l = Created \<or> pc l = AwaitPromise) \<and> calls l = [] \<and>
        (outer l = None \<or> outer l = p)
      \<or> fut l = None \<and> calls l = [NoArgs] \<and> h () = Inr (Awaitable None) \<and>
        p \<noteq> None \<and> pc l = AwaitResult p
      \<or> p \<noteq> None \<and> calls l = [NoArgs] \<and> fut l \<noteq> None \<and>
        (\<forall>e. h () = Inl e \<longrightarrow> fut l = Rejected e) \<and>
        (\<forall>x. h () = Inr (Plain x) \<longrightarrow> fut l = p) \<and>
        (\<forall>a. h () = Inr (Awaitable a) \<longrightarrow>
           result_fut l \<noteq> None \<and> (a \<noteq> None \<longrightarrow> result_fut l = a) \<and>
           (\<forall>e. result_fut l = Rejected e \<longrightarrow> fut l = Rejected e) \<and>
           (\<forall>y. result_fut l = Fulfilled y \<longrightarrow> fut l = p)))"

text \<open>
  A resolution link under any events, \<^verbatim>\<open>cancel()\<close> included: a pending cancellation of
  the task or a cancelled outer future comes with the flag; the finalizer is not invoked
  while the parent is pending, and until it is invoked the wrapper has not passed
  \<^verbatim>\<open>await promise\<close>; while the parent is pending the link is pending or cancelled.
\<close>

definition inv_resolution_any ::
  "(unit \<Rightarrow> exc + 'v returned) \<Rightarrow> 'v state \<Rightarrow> 'v chain_promise \<Rightarrow> bool" where
  "inv_resolution_any h p l \<longleftrightarrow>
     variant l = ResolutionPromise h \<and>
     (must_cancel l \<longrightarrow> direct_cancellation l) \<and>
     (outer l = None \<or> outer l = p \<or> direct_cancellation l \<and> outer l = Cancelled) \<and>
     (calls l \<noteq> [] \<longrightarrow> p \<noteq> None) \<and>
     (calls l = [] \<longrightarrow> pc l = Created \<or> pc l = AwaitPromise) \<and>
     (p = None \<longrightarrow> fut l = None \<or> fut l = Cancelled)"

text \<open>
  A resolution link cancelled directly before its finalizer was invoked: the flag is set,
  and the link is cancelled or about to be, at its next step.
\<close>

definition direct_cancelled :: "'v chain_promise \<Rightarrow> bool" where
  "direct_cancelled l \<longleftrightarrow>
     (\<exists>h. variant l = ResolutionPromise h) \<and> direct_cancellation l \<and> calls l = [] \<and>
     (fut l = Cancelled
      \<or> fut l = None \<and>
        (pc l = Created \<and> must_cancel l
         \<or> pc l = AwaitPromise \<and> (outer l = Cancelled \<or> must_cancel l \<and> outer l \<noteq> None)))"

section \<open>Basic facts\<close>

lemmas wrapper_defs = wrapper_def FulfillmentPromise_wrapper_def RejectionPromise_wrapper_def
  ResolutionPromise_wrapper_def resolve_awaitable_def after_result_def complete_def

lemmas init_defs = derive_def ChainPromise_init_def Promise_init_def root_def shield_def
  promise.extend_def chain_promise.fields_def

lemma run_append: "run s (xs @ ys) = run (run s xs) ys"
  by (induction xs arbitrary: s) simp_all

lemma Task_step_cases:
  obtains
    (Done) "fut l \<noteq> None" "Task_step l = l"
  | (Thrown) "fut l = None" "pc l = Created" "must_cancel l"
      "Task_step l = complete (l\<lparr>must_cancel := False\<rparr>) (Inl CancelledError)"
  | (Suspend) "fut l = None" "pc l = Created" "\<not> must_cancel l" "outer l = None"
      "Task_step l = l\<lparr>pc := AwaitPromise\<rparr>"
  | (Enter) r where "fut l = None" "pc l = Created" "\<not> must_cancel l" "outer l = Some r"
      "Task_step l = wrapper l r"
  | (Idle) sv where "fut l = None"
      "pc l = AwaitPromise \<and> outer l = None \<or> pc l = AwaitResult sv \<and> result_fut l = None"
      "Task_step l = l"
  | (Resume) r where "fut l = None" "pc l = AwaitPromise" "outer l = Some r"
      "Task_step l =
         wrapper (l\<lparr>must_cancel := False\<rparr>) (if must_cancel l then Inl CancelledError else r)"
  | (ResumeResult) sv r where "fut l = None" "pc l = AwaitResult sv" "result_fut l = Some r"
      "Task_step l =
         after_result sv (l\<lparr>must_cancel := False\<rparr>)
           (if must_cancel l then Inl CancelledError else r)"
proof (cases "fut l")
  case (Some a)
  then show ?thesis using Done by (simp add: Task_step_def)
next
  case None
  show ?thesis
  proof (cases "pc l")
    case Created
    then show ?thesis using None Thrown Suspend Enter
      by (cases "outer l"; cases "must_cancel l") (simp_all add: Task_step_def)
  next
    case AwaitPromise
    then show ?thesis using None Idle Resume
      by (cases "outer l") (simp_all add: Task_step_def)
  next
    case (AwaitResult sv)
    then show ?thesis using None Idle ResumeResult
      by (cases "result_fut l") (simp_all add: Task_step_def)
  qed
qed

lemma Task_cancel_cases:
  obtains
    (Refused) "fut l \<noteq> None" "Task_cancel l = (False, l)"
  | (Flagged) "fut l = None" "Task_cancel l = (True, l\<lparr>must_cancel := True\<rparr>)"
      "pc l = Created \<or> pc l = AwaitPromise \<and> outer l \<noteq> None
         \<or> (\<exists>sv. pc l = AwaitResult sv) \<and> result_fut l \<noteq> None"
  | (Outer) "fut l = None" "pc l = AwaitPromise" "outer l = None"
      "Task_cancel l = (True, l\<lparr>outer := Cancelled\<rparr>)"
  | (Result) sv where "fut l = None" "pc l = AwaitResult sv" "result_fut l = None"
      "Task_cancel l = (True, l\<lparr>result_fut := Cancelled\<rparr>)"
proof (cases "fut l")
  case (Some a)
  then show ?thesis using Refused by (simp add: Task_cancel_def)
next
  case None
  show ?thesis
  proof (cases "pc l")
    case Created
    then show ?thesis using None Flagged by (simp add: Task_cancel_def)
  next
    case AwaitPromise
    then show ?thesis using None Flagged Outer
      by (cases "outer l") (simp_all add: Task_cancel_def)
  next
    case (AwaitResult sv)
    then show ?thesis using None Flagged Result
      by (cases "result_fut l") (simp_all add: Task_cancel_def)
  qed
qed

subsection \<open>What never changes\<close>

lemma variant_wrapper [simp]: "variant (wrapper l r) = variant l"
  by (simp add: wrapper_defs split: variant.splits sum.splits exc.splits returned.splits
      option.splits)

lemma variant_after_result [simp]: "variant (after_result sv l r) = variant l"
  by (simp add: after_result_def complete_def split: option.splits sum.splits)

lemma variant_Task_step [simp]: "variant (Task_step l) = variant l"
  by (cases l rule: Task_step_cases) (simp_all add: complete_def)

lemma variant_cancel [simp]: "variant (snd (cancel l)) = variant l"
  by (cases l rule: Task_cancel_cases;
      cases "l\<lparr>direct_cancellation := True\<rparr>" rule: Task_cancel_cases)
     (simp_all add: cancel_def Promise_cancel_def split: variant.splits)

lemma variant_inner_done [simp]: "variant (inner_done p l) = variant l"
  by (simp add: inner_done_def)

lemma variant_awaitable_done [simp]: "variant (awaitable_done r l) = variant l"
  by (simp add: awaitable_done_def split: pc.splits)

lemma managed_wrapper [simp]: "is_managed (wrapper l r) = is_managed l"
  by (simp add: wrapper_defs split: variant.splits sum.splits exc.splits returned.splits
      option.splits)

lemma managed_after_result [simp]: "is_managed (after_result sv l r) = is_managed l"
  by (simp add: after_result_def complete_def split: option.splits sum.splits)

lemma managed_Task_step [simp]: "is_managed (Task_step l) = is_managed l"
  by (cases l rule: Task_step_cases) (simp_all add: complete_def)

lemma managed_cancel [simp]: "is_managed (snd (cancel l)) = is_managed l"
  by (cases l rule: Task_cancel_cases;
      cases "l\<lparr>direct_cancellation := True\<rparr>" rule: Task_cancel_cases)
     (simp_all add: cancel_def Promise_cancel_def split: variant.splits)

lemma managed_inner_done [simp]: "is_managed (inner_done p l) = is_managed l"
  by (simp add: inner_done_def)

lemma managed_awaitable_done [simp]: "is_managed (awaitable_done r l) = is_managed l"
  by (simp add: awaitable_done_def split: pc.splits)

lemma awaited_wrapper [simp]: "awaited (wrapper l r) = awaited l"
  by (simp add: wrapper_defs split: variant.splits sum.splits exc.splits returned.splits
      option.splits)

lemma awaited_after_result [simp]: "awaited (after_result sv l r) = awaited l"
  by (simp add: after_result_def complete_def split: option.splits sum.splits)

lemma awaited_Task_step [simp]: "awaited (Task_step l) = awaited l"
  by (cases l rule: Task_step_cases) (simp_all add: complete_def)

lemma awaited_cancel [simp]: "awaited (snd (cancel l)) = awaited l"
  by (cases l rule: Task_cancel_cases;
      cases "l\<lparr>direct_cancellation := True\<rparr>" rule: Task_cancel_cases)
     (simp_all add: cancel_def Promise_cancel_def split: variant.splits)

lemma awaited_inner_done [simp]: "awaited (inner_done p l) = awaited l"
  by (simp add: inner_done_def)

lemma awaited_awaitable_done [simp]: "awaited (awaitable_done r l) = awaited l"
  by (simp add: awaitable_done_def split: pc.splits)

subsection \<open>Events on a system\<close>

text \<open>The link an operation of the task is applied to, and the link it leaves.\<close>

lemma child_on_task:
  "child (on_task f s) =
     f (case awaited (child s) of
          Outer \<Rightarrow> child s
        | Inner \<Rightarrow> (child s)\<lparr>outer := fut (parent s)\<rparr>)"
  by (simp add: on_task_def Let_def split: future_ref.splits)

lemma on_task_shielded:
  "awaited (child s) = Outer \<Longrightarrow> on_task f s = s\<lparr>child := f (child s)\<rparr>"
  by (simp add: on_task_def)

text \<open>On a link that awaits its outer future, an event touches the link or the parent.\<close>

lemma step_shielded:
  assumes "awaited (child s) = Outer"
  shows "step s (Settle r) =
           (if fut (parent s) = None then s\<lparr>parent := (parent s)\<lparr>fut := Some r\<rparr>\<rparr> else s)"
    and "step s Propagate = s\<lparr>child := inner_done (fut (parent s)) (child s)\<rparr>"
    and "step s Cancel = s\<lparr>child := snd (cancel (child s))\<rparr>"
    and "step s Step = s\<lparr>child := Task_step (child s)\<rparr>"
    and "step s (AwaitableSettle r) = s\<lparr>child := awaitable_done r (child s)\<rparr>"
  using assms by (simp_all add: step_def on_task_shielded)

lemma variant_step [simp]: "variant (child (step s e)) = variant (child s)"
  by (cases e) (simp_all add: step_def child_on_task split: future_ref.splits)

lemma variant_run [simp]: "variant (child (run s evs)) = variant (child s)"
  by (induction evs arbitrary: s) simp_all

lemma managed_step [simp]: "is_managed (child (step s e)) = is_managed (child s)"
  by (cases e) (simp_all add: step_def child_on_task split: future_ref.splits)

lemma managed_run [simp]: "is_managed (child (run s evs)) = is_managed (child s)"
  by (induction evs arbitrary: s) simp_all

lemma awaited_step [simp]: "awaited (child (step s e)) = awaited (child s)"
  by (cases e) (simp_all add: step_def child_on_task split: future_ref.splits)

lemma awaited_run [simp]: "awaited (child (run s evs)) = awaited (child s)"
  by (induction evs arbitrary: s) simp_all

lemma awaited_init [simp]: "awaited (ChainPromise_init k) = Outer"
  by (simp add: init_defs)

lemma awaited_derive [simp]: "awaited (child (derive k)) = Outer"
  by (simp add: derive_def)

subsection \<open>The parent of a shielded link is driven by its own events only\<close>

lemma parent_step_Cancel: "awaited (child s) = Outer \<Longrightarrow> parent (step s Cancel) = parent s"
  by (simp add: step_shielded)

lemma parent_step_cong:
  assumes "awaited (child s) = Outer" and "awaited (child t) = Outer"
    and "parent s = parent t"
  shows "parent (step s e) = parent (step t e)"
  using assms by (cases e) (simp_all add: step_shielded)

lemma parent_run_cong:
  "awaited (child s) = Outer \<Longrightarrow> awaited (child t) = Outer \<Longrightarrow> parent s = parent t \<Longrightarrow>
     parent (run s evs) = parent (run t evs)"
proof (induction evs arbitrary: s t)
  case Nil
  then show ?case by simp
next
  case (Cons e evs)
  from Cons.prems have "parent (step s e) = parent (step t e)"
    by (rule parent_step_cong)
  moreover from Cons.prems have "awaited (child (step s e)) = Outer"
    and "awaited (child (step t e)) = Outer"
    by simp_all
  ultimately have "parent (run (step s e) evs) = parent (run (step t e) evs)"
    using Cons.IH by blast
  then show ?case by simp
qed

subsection \<open>After a cancellation request no callback starts\<close>

lemma calls_after_result [simp]: "calls (after_result sv l r) = calls l"
  by (simp add: after_result_def complete_def split: option.splits sum.splits)

lemma calls_inner_done [simp]: "calls (inner_done p l) = calls l"
  by (simp add: inner_done_def)

lemma calls_awaitable_done [simp]: "calls (awaitable_done r l) = calls l"
  by (simp add: awaitable_done_def split: pc.splits)

lemma calls_cancel [simp]: "calls (snd (cancel l)) = calls l"
  by (cases l rule: Task_cancel_cases;
      cases "l\<lparr>direct_cancellation := True\<rparr>" rule: Task_cancel_cases)
     (simp_all add: cancel_def Promise_cancel_def split: variant.splits)

lemma direct_cancellation_cancel:
  "variant l = ResolutionPromise h \<Longrightarrow> direct_cancellation (snd (cancel l))"
  by (cases "l\<lparr>direct_cancellation := True\<rparr>" rule: Task_cancel_cases)
     (simp_all add: cancel_def Promise_cancel_def)

lemma latched_cancel: "cancel_latched (snd (cancel l))"
proof (cases "\<exists>h. variant l = ResolutionPromise h")
  case True
  then show ?thesis
    using direct_cancellation_cancel by (auto simp: cancel_latched_def)
next
  case False
  then have c: "cancel l = Task_cancel l"
    by (simp add: cancel_def Promise_cancel_def split: variant.splits)
  show ?thesis
    using False unfolding c
    by (cases l rule: Task_cancel_cases) (auto simp: cancel_latched_def)
qed

lemma latched_Task_step:
  assumes "cancel_latched l"
  shows "cancel_latched (Task_step l) \<and> calls (Task_step l) = calls l"
proof (cases l rule: Task_step_cases)
  case Done
  then show ?thesis using assms by simp
next
  case Thrown
  then show ?thesis using assms by (auto simp: cancel_latched_def complete_def)
next
  case Suspend
  then show ?thesis using assms by (auto simp: cancel_latched_def)
next
  case (Enter r)
  then show ?thesis using assms
    by (auto simp: cancel_latched_def wrapper_defs split: variant.splits)
next
  case (Idle sv)
  then show ?thesis using assms by simp
next
  case (Resume r)
  then show ?thesis using assms
    by (auto simp: cancel_latched_def wrapper_defs split: variant.splits)
next
  case (ResumeResult sv r)
  then show ?thesis using assms
    by (auto simp: cancel_latched_def after_result_def complete_def
        split: option.splits sum.splits)
qed

lemma latched_inner_done: "cancel_latched l \<Longrightarrow> cancel_latched (inner_done p l)"
  by (auto simp: cancel_latched_def inner_done_def)

lemma latched_awaitable_done: "cancel_latched l \<Longrightarrow> cancel_latched (awaitable_done r l)"
  by (auto simp: cancel_latched_def awaitable_done_def split: pc.splits)

lemma latched_step:
  assumes "cancel_latched (child s)" and "awaited (child s) = Outer"
  shows "cancel_latched (child (step s e)) \<and> calls (child (step s e)) = calls (child s)"
  using assms
  by (cases e)
     (simp_all add: step_shielded latched_Task_step latched_cancel latched_inner_done
        latched_awaitable_done)

lemma latched_run:
  "cancel_latched (child s) \<Longrightarrow> awaited (child s) = Outer \<Longrightarrow>
     cancel_latched (child (run s evs)) \<and> calls (child (run s evs)) = calls (child s)"
proof (induction evs arbitrary: s)
  case Nil
  then show ?case by simp
next
  case (Cons e evs)
  from Cons.prems have st: "cancel_latched (child (step s e))"
    and c: "calls (child (step s e)) = calls (child s)"
    using latched_step by blast+
  have a: "awaited (child (step s e)) = Outer"
    using Cons.prems by simp
  from Cons.IH [OF st a] c show ?case by simp
qed

lemma calls_after_Cancel:
  assumes "awaited (child s) = Outer"
  shows "calls (child (run (step s Cancel) evs)) = calls (child s)"
proof -
  have "cancel_latched (child (step s Cancel))"
    using assms by (simp add: step_shielded latched_cancel)
  moreover have "awaited (child (step s Cancel)) = Outer"
    using assms by simp
  ultimately have "calls (child (run (step s Cancel) evs)) = calls (child (step s Cancel))"
    using latched_run by blast
  then show ?thesis
    using assms by (simp add: step_shielded)
qed

subsection \<open>The flag of a resolution link, whatever future the link awaits\<close>

lemma latched_flag:
  "variant l = ResolutionPromise h \<Longrightarrow> cancel_latched l \<longleftrightarrow> direct_cancellation l"
  by (simp add: cancel_latched_def)

lemma flag_step:
  assumes v: "variant (child s) = ResolutionPromise h" and d: "direct_cancellation (child s)"
  shows "direct_cancellation (child (step s e)) \<and> calls (child (step s e)) = calls (child s)"
proof -
  let ?l = "case awaited (child s) of
              Outer \<Rightarrow> child s
            | Inner \<Rightarrow> (child s)\<lparr>outer := fut (parent s)\<rparr>"
  have lv: "variant ?l = ResolutionPromise h" and lc: "calls ?l = calls (child s)"
    and ll: "cancel_latched ?l"
    using v d by (simp_all add: cancel_latched_def split: future_ref.splits)
  have vs: "variant (child (step s e)) = ResolutionPromise h"
    using v by simp
  have "cancel_latched (child (step s e)) \<and> calls (child (step s e)) = calls (child s)"
  proof (cases e)
    case (Settle r)
    then show ?thesis
      using v d by (simp add: step_def cancel_latched_def)
  next
    case Propagate
    then show ?thesis
      using v d by (simp add: step_def cancel_latched_def inner_done_def split: future_ref.splits)
  next
    case Cancel
    then show ?thesis
      using latched_cancel [of ?l] lc by (simp add: step_def child_on_task)
  next
    case Step
    then show ?thesis
      using latched_Task_step [OF ll] lc by (simp add: step_def child_on_task)
  next
    case (AwaitableSettle r)
    then show ?thesis
      using v d
      by (simp add: step_def cancel_latched_def awaitable_done_def split: pc.splits)
  qed
  then show ?thesis
    using vs by (simp add: latched_flag)
qed

lemma flag_run:
  "variant (child s) = ResolutionPromise h \<Longrightarrow> direct_cancellation (child s) \<Longrightarrow>
     direct_cancellation (child (run s evs)) \<and> calls (child (run s evs)) = calls (child s)"
proof (induction evs arbitrary: s)
  case Nil
  then show ?case by simp
next
  case (Cons e evs)
  from Cons.prems have d: "direct_cancellation (child (step s e))"
    and c: "calls (child (step s e)) = calls (child s)"
    using flag_step by blast+
  have v: "variant (child (step s e)) = ResolutionPromise h"
    using Cons.prems by simp
  from Cons.IH [OF v d] c show ?case by simp
qed

lemma flag_after_Cancel:
  assumes "variant (child s) = ResolutionPromise h"
  shows "direct_cancellation (child (step s Cancel)) \<and>
         calls (child (step s Cancel)) = calls (child s)"
proof -
  let ?l = "case awaited (child s) of
              Outer \<Rightarrow> child s
            | Inner \<Rightarrow> (child s)\<lparr>outer := fut (parent s)\<rparr>"
  have "variant ?l = ResolutionPromise h" and "calls ?l = calls (child s)"
    using assms by (simp_all split: future_ref.splits)
  then show ?thesis
    using direct_cancellation_cancel [of ?l h] by (simp add: step_def child_on_task)
qed

subsection \<open>Progress\<close>

lemma started_wrapper: "started (wrapper l r)"
  by (auto simp: started_def wrapper_defs
      split: variant.splits sum.splits exc.splits returned.splits option.splits)

lemma started_Task_step: "outer l \<noteq> None \<Longrightarrow> started (Task_step l)"
proof (cases l rule: Task_step_cases)
  case (Enter r)
  then show ?thesis by (simp add: started_wrapper)
next
  case (Resume r)
  then show ?thesis by (simp add: started_wrapper)
next
  case (ResumeResult sv r)
  then show ?thesis
    by (auto simp: started_def after_result_def complete_def split: option.splits sum.splits)
qed (auto simp: started_def complete_def)

lemma outer_inner_done: "p \<noteq> None \<Longrightarrow> outer (inner_done p l) \<noteq> None"
  by (simp add: inner_done_def)

lemma done_after_awaitable:
  assumes "started l"
  shows "fut (Task_step (awaitable_done r l)) \<noteq> None"
proof (cases "fut l")
  case (Some a)
  then have "fut (awaitable_done r l) \<noteq> None"
    by (simp add: awaitable_done_def split: pc.splits)
  then show ?thesis
    by (simp add: Task_step_def)
next
  case None
  with assms obtain sv where sv: "pc l = AwaitResult sv"
    by (auto simp: started_def)
  with None have a: "result_fut (awaitable_done r l) \<noteq> None"
    "pc (awaitable_done r l) = AwaitResult sv" "fut (awaitable_done r l) = None"
    by (simp_all add: awaitable_done_def)
  show ?thesis
    using a
    by (cases "awaitable_done r l" rule: Task_step_cases)
       (auto simp: after_result_def complete_def split: option.splits sum.splits)
qed

lemma parent_run_Propagate_Step:
  "awaited (child s) = Outer \<Longrightarrow> parent (run s [Propagate, Step]) = parent s"
  by (simp add: step_shielded)

lemma child_run_Propagate_Step:
  "awaited (child s) = Outer \<Longrightarrow>
     child (run s [Propagate, Step]) = Task_step (inner_done (fut (parent s)) (child s))"
  by (simp add: step_shielded)

lemma started_after_parent:
  assumes "awaited (child s) = Outer" and "fut (parent s) \<noteq> None"
  shows "started (child (run s [Propagate, Step]))"
  unfolding child_run_Propagate_Step [OF assms(1)]
  by (rule started_Task_step) (rule outer_inner_done, rule assms(2))

lemma done_after_parent:
  assumes "awaited (child s) = Outer" and "fut (parent s) \<noteq> None"
  shows "fut (child (run s [Propagate, Step, AwaitableSettle r, Step])) \<noteq> None"
proof -
  have "child (run s [Propagate, Step, AwaitableSettle r, Step]) =
      Task_step (awaitable_done r (child (run s [Propagate, Step])))"
    using assms(1) by (simp add: step_shielded)
  then show ?thesis
    using started_after_parent [OF assms] by (simp only: done_after_awaitable not_False_eq_True)
qed

subsection \<open>Fulfillment links that are not cancelled\<close>









subsection \<open>Rejection links that are not cancelled\<close>

lemma inv_rejection_init: "inv_rejection g p (ChainPromise_init (RejectionPromise g))"
  by (simp add: inv_rejection_def init_defs)

lemma inv_rejection_settle: "inv_rejection g None l \<Longrightarrow> inv_rejection g (Some r) l"
  by (auto simp: inv_rejection_def)

lemma inv_rejection_inner_done:
  "inv_rejection g p l \<Longrightarrow> inv_rejection g p (inner_done p l)"
  by (auto simp: inv_rejection_def inner_done_def)

lemma inv_rejection_awaitable_done:
  "inv_rejection g p l \<Longrightarrow> inv_rejection g p (awaitable_done r l)"
  by (auto simp: inv_rejection_def awaitable_done_def split: pc.splits)

lemma inv_rejection_Task_step:
  assumes "inv_rejection g p l"
  shows "inv_rejection g p (Task_step l)"
proof (cases l rule: Task_step_cases)
  case Done
  then show ?thesis using assms by simp
next
  case Thrown
  then show ?thesis using assms by (simp add: inv_rejection_def)
next
  case Suspend
  then show ?thesis using assms by (auto simp add: inv_rejection_def)
next
  case (Enter r)
  then show ?thesis using assms
    by (auto simp add: inv_rejection_def wrapper_defs
        split: sum.splits exc.splits returned.splits option.splits)
next
  case (Idle sv)
  then show ?thesis using assms by simp
next
  case (Resume r)
  then show ?thesis using assms
    by (auto simp add: inv_rejection_def wrapper_defs
        split: sum.splits exc.splits returned.splits option.splits)
next
  case (ResumeResult sv r)
  then show ?thesis using assms
    by (auto simp add: inv_rejection_def after_result_def complete_def
        split: sum.splits returned.splits option.splits)
qed

lemma inv_rejection_step:
  assumes "inv_rejection g (fut (parent s)) (child s)" and "e \<noteq> Cancel" and "awaited (child s) = Outer"
  shows "inv_rejection g (fut (parent (step s e))) (child (step s e))"
proof (cases e)
  case (Settle r)
  then show ?thesis
    using assms inv_rejection_settle [of g "child s" r] by (auto simp: step_shielded)
next
  case Propagate
  then show ?thesis
    using assms by (simp add: step_shielded inv_rejection_inner_done)
next
  case Cancel
  then show ?thesis using assms by simp
next
  case Step
  then show ?thesis
    using assms by (simp add: step_shielded inv_rejection_Task_step)
next
  case (AwaitableSettle r)
  then show ?thesis
    using assms by (simp add: step_shielded inv_rejection_awaitable_done)
qed

lemma inv_rejection_run:
  "inv_rejection g (fut (parent s)) (child s) \<Longrightarrow> awaited (child s) = Outer \<Longrightarrow>
     Cancel \<notin> set evs \<Longrightarrow>
     inv_rejection g (fut (parent (run s evs))) (child (run s evs))"
proof (induction evs arbitrary: s)
  case Nil
  then show ?case by simp
next
  case (Cons e evs)
  from Cons.prems have "inv_rejection g (fut (parent (step s e))) (child (step s e))"
    by (auto intro: inv_rejection_step)
  moreover from Cons.prems have "awaited (child (step s e)) = Outer"
    by simp
  moreover from Cons.prems have "Cancel \<notin> set evs"
    by simp
  ultimately have
    "inv_rejection g (fut (parent (run (step s e) evs))) (child (run (step s e) evs))"
    by (rule Cons.IH)
  then show ?case by simp
qed

lemma inv_rejection_derive:
  "Cancel \<notin> set evs \<Longrightarrow>
     inv_rejection g (fut (parent (run (derive (RejectionPromise g)) evs)))
       (child (run (derive (RejectionPromise g)) evs))"
  by (rule inv_rejection_run) (simp_all add: derive_def inv_rejection_init)

subsection \<open>Rejection links under any events\<close>

lemma inv_rejection_any_init:
  "inv_rejection_any g p (ChainPromise_init (RejectionPromise g))"
  by (simp add: inv_rejection_any_def init_defs)

lemma inv_rejection_any_settle:
  "inv_rejection_any g None l \<Longrightarrow> inv_rejection_any g (Some r) l"
  by (auto simp: inv_rejection_any_def)

lemma inv_rejection_any_inner_done:
  "inv_rejection_any g p l \<Longrightarrow> inv_rejection_any g p (inner_done p l)"
  by (auto simp: inv_rejection_any_def inner_done_def started_def)

lemma inv_rejection_any_awaitable_done:
  "inv_rejection_any g p l \<Longrightarrow> inv_rejection_any g p (awaitable_done r l)"
  by (auto simp: inv_rejection_any_def awaitable_done_def started_def split: pc.splits)

lemma inv_rejection_any_cancel:
  assumes "inv_rejection_any g p l"
  shows "inv_rejection_any g p (snd (cancel l))"
proof -
  have c: "cancel l = Task_cancel l"
    using assms by (simp add: inv_rejection_any_def cancel_def Promise_cancel_def)
  show ?thesis
    using assms unfolding c
    by (cases l rule: Task_cancel_cases) (auto simp: inv_rejection_any_def started_def)
qed

lemma inv_rejection_any_Task_step:
  assumes "inv_rejection_any g p l"
  shows "inv_rejection_any g p (Task_step l)"
proof (cases l rule: Task_step_cases)
  case Done
  then show ?thesis using assms by simp
next
  case Thrown
  then show ?thesis using assms
    by (auto simp add: inv_rejection_any_def started_def complete_def)
next
  case Suspend
  then show ?thesis using assms by (auto simp add: inv_rejection_any_def started_def)
next
  case (Enter r)
  then show ?thesis using assms
    by (auto simp add: inv_rejection_any_def started_def wrapper_defs
        split: sum.splits exc.splits returned.splits option.splits)
next
  case (Idle sv)
  then show ?thesis using assms by simp
next
  case (Resume r)
  then show ?thesis using assms
    by (auto simp add: inv_rejection_any_def started_def wrapper_defs
        split: sum.splits exc.splits returned.splits option.splits)
next
  case (ResumeResult sv r)
  then show ?thesis using assms
    by (auto simp add: inv_rejection_any_def started_def after_result_def complete_def
        split: sum.splits returned.splits option.splits)
qed

lemma inv_rejection_any_step:
  assumes "inv_rejection_any g (fut (parent s)) (child s)" and "awaited (child s) = Outer"
  shows "inv_rejection_any g (fut (parent (step s e))) (child (step s e))"
proof (cases e)
  case (Settle r)
  then show ?thesis
    using assms inv_rejection_any_settle [of g "child s" r] by (auto simp: step_shielded)
next
  case Propagate
  then show ?thesis
    using assms by (simp add: step_shielded inv_rejection_any_inner_done)
next
  case Cancel
  then show ?thesis
    using assms by (simp add: step_shielded inv_rejection_any_cancel)
next
  case Step
  then show ?thesis
    using assms by (simp add: step_shielded inv_rejection_any_Task_step)
next
  case (AwaitableSettle r)
  then show ?thesis
    using assms by (simp add: step_shielded inv_rejection_any_awaitable_done)
qed

lemma inv_rejection_any_run:
  "inv_rejection_any g (fut (parent s)) (child s) \<Longrightarrow> awaited (child s) = Outer \<Longrightarrow>
     inv_rejection_any g (fut (parent (run s evs))) (child (run s evs))"
proof (induction evs arbitrary: s)
  case Nil
  then show ?case by simp
next
  case (Cons e evs)
  from Cons.prems have "inv_rejection_any g (fut (parent (step s e))) (child (step s e))"
    by (auto intro: inv_rejection_any_step)
  moreover from Cons.prems have "awaited (child (step s e)) = Outer"
    by simp
  ultimately have
    "inv_rejection_any g (fut (parent (run (step s e) evs))) (child (run (step s e) evs))"
    by (rule Cons.IH)
  then show ?case by simp
qed

lemma inv_rejection_any_derive:
  "inv_rejection_any g (fut (parent (run (derive (RejectionPromise g)) evs)))
     (child (run (derive (RejectionPromise g)) evs))"
  by (rule inv_rejection_any_run) (simp_all add: derive_def inv_rejection_any_init)

subsection \<open>Resolution links that are not cancelled\<close>

lemma inv_resolution_init: "inv_resolution h p (ChainPromise_init (ResolutionPromise h))"
  by (simp add: inv_resolution_def init_defs)

lemma inv_resolution_settle: "inv_resolution h None l \<Longrightarrow> inv_resolution h (Some r) l"
  by (auto simp: inv_resolution_def)

lemma inv_resolution_inner_done:
  "inv_resolution h p l \<Longrightarrow> inv_resolution h p (inner_done p l)"
  by (auto simp: inv_resolution_def inner_done_def)

lemma inv_resolution_awaitable_done:
  "inv_resolution h p l \<Longrightarrow> inv_resolution h p (awaitable_done r l)"
  by (auto simp: inv_resolution_def awaitable_done_def split: pc.splits)

lemma inv_resolution_Task_step:
  assumes "inv_resolution h p l"
  shows "inv_resolution h p (Task_step l)"
proof (cases l rule: Task_step_cases)
  case Done
  then show ?thesis using assms by simp
next
  case Thrown
  then show ?thesis using assms by (simp add: inv_resolution_def)
next
  case Suspend
  then show ?thesis using assms by (auto simp add: inv_resolution_def)
next
  case (Enter r)
  then show ?thesis using assms
    by (cases p)
       (auto simp add: inv_resolution_def wrapper_defs
          split: sum.splits returned.splits option.splits)
next
  case (Idle sv)
  then show ?thesis using assms by simp
next
  case (Resume r)
  then show ?thesis using assms
    by (cases p)
       (auto simp add: inv_resolution_def wrapper_defs
          split: sum.splits returned.splits option.splits)
next
  case (ResumeResult sv r)
  then show ?thesis using assms
    by (auto simp add: inv_resolution_def after_result_def complete_def
        split: sum.splits returned.splits option.splits)
qed

lemma inv_resolution_step:
  assumes "inv_resolution h (fut (parent s)) (child s)" and "e \<noteq> Cancel" and "awaited (child s) = Outer"
  shows "inv_resolution h (fut (parent (step s e))) (child (step s e))"
proof (cases e)
  case (Settle r)
  then show ?thesis
    using assms inv_resolution_settle [of h "child s" r] by (auto simp: step_shielded)
next
  case Propagate
  then show ?thesis
    using assms by (simp add: step_shielded inv_resolution_inner_done)
next
  case Cancel
  then show ?thesis using assms by simp
next
  case Step
  then show ?thesis
    using assms by (simp add: step_shielded inv_resolution_Task_step)
next
  case (AwaitableSettle r)
  then show ?thesis
    using assms by (simp add: step_shielded inv_resolution_awaitable_done)
qed

lemma inv_resolution_run:
  "inv_resolution h (fut (parent s)) (child s) \<Longrightarrow> awaited (child s) = Outer \<Longrightarrow>
     Cancel \<notin> set evs \<Longrightarrow>
     inv_resolution h (fut (parent (run s evs))) (child (run s evs))"
proof (induction evs arbitrary: s)
  case Nil
  then show ?case by simp
next
  case (Cons e evs)
  from Cons.prems have "inv_resolution h (fut (parent (step s e))) (child (step s e))"
    by (auto intro: inv_resolution_step)
  moreover from Cons.prems have "awaited (child (step s e)) = Outer"
    by simp
  moreover from Cons.prems have "Cancel \<notin> set evs"
    by simp
  ultimately have
    "inv_resolution h (fut (parent (run (step s e) evs))) (child (run (step s e) evs))"
    by (rule Cons.IH)
  then show ?case by simp
qed

lemma inv_resolution_derive:
  "Cancel \<notin> set evs \<Longrightarrow>
     inv_resolution h (fut (parent (run (derive (ResolutionPromise h)) evs)))
       (child (run (derive (ResolutionPromise h)) evs))"
  by (rule inv_resolution_run) (simp_all add: derive_def inv_resolution_init)

subsection \<open>Resolution links under any events\<close>

lemma inv_resolution_any_init:
  "inv_resolution_any h p (ChainPromise_init (ResolutionPromise h))"
  by (simp add: inv_resolution_any_def init_defs)

lemma inv_resolution_any_settle:
  "inv_resolution_any h None l \<Longrightarrow> inv_resolution_any h (Some r) l"
  by (auto simp: inv_resolution_any_def)

lemma inv_resolution_any_inner_done:
  "inv_resolution_any h p l \<Longrightarrow> inv_resolution_any h p (inner_done p l)"
  by (auto simp: inv_resolution_any_def inner_done_def)

lemma inv_resolution_any_awaitable_done:
  "inv_resolution_any h p l \<Longrightarrow> inv_resolution_any h p (awaitable_done r l)"
  by (auto simp: inv_resolution_any_def awaitable_done_def split: pc.splits)

lemma inv_resolution_any_cancel:
  assumes "inv_resolution_any h p l"
  shows "inv_resolution_any h p (snd (cancel l))"
proof -
  have c: "cancel l = Task_cancel (l\<lparr>direct_cancellation := True\<rparr>)"
    using assms by (simp add: inv_resolution_any_def cancel_def Promise_cancel_def)
  show ?thesis
    using assms unfolding c
    by (cases "l\<lparr>direct_cancellation := True\<rparr>" rule: Task_cancel_cases)
       (auto simp: inv_resolution_any_def)
qed

lemma inv_resolution_any_Task_step:
  assumes "inv_resolution_any h p l"
  shows "inv_resolution_any h p (Task_step l)"
proof (cases l rule: Task_step_cases)
  case Done
  then show ?thesis using assms by simp
next
  case Thrown
  then show ?thesis using assms
    by (auto simp add: inv_resolution_any_def complete_def)
next
  case Suspend
  then show ?thesis using assms by (auto simp add: inv_resolution_any_def)
next
  case (Enter r)
  then show ?thesis using assms
    by (auto simp add: inv_resolution_any_def wrapper_defs
        split: sum.splits returned.splits option.splits)
next
  case (Idle sv)
  then show ?thesis using assms by simp
next
  case (Resume r)
  then show ?thesis using assms
    by (auto simp add: inv_resolution_any_def wrapper_defs
        split: sum.splits returned.splits option.splits)
next
  case (ResumeResult sv r)
  then show ?thesis using assms
    by (auto simp add: inv_resolution_any_def after_result_def complete_def
        split: sum.splits returned.splits option.splits)
qed

lemma inv_resolution_any_step:
  assumes "inv_resolution_any h (fut (parent s)) (child s)" and "awaited (child s) = Outer"
  shows "inv_resolution_any h (fut (parent (step s e))) (child (step s e))"
proof (cases e)
  case (Settle r)
  then show ?thesis
    using assms inv_resolution_any_settle [of h "child s" r] by (auto simp: step_shielded)
next
  case Propagate
  then show ?thesis
    using assms by (simp add: step_shielded inv_resolution_any_inner_done)
next
  case Cancel
  then show ?thesis
    using assms by (simp add: step_shielded inv_resolution_any_cancel)
next
  case Step
  then show ?thesis
    using assms by (simp add: step_shielded inv_resolution_any_Task_step)
next
  case (AwaitableSettle r)
  then show ?thesis
    using assms by (simp add: step_shielded inv_resolution_any_awaitable_done)
qed

lemma inv_resolution_any_run:
  "inv_resolution_any h (fut (parent s)) (child s) \<Longrightarrow> awaited (child s) = Outer \<Longrightarrow>
     inv_resolution_any h (fut (parent (run s evs))) (child (run s evs))"
proof (induction evs arbitrary: s)
  case Nil
  then show ?case by simp
next
  case (Cons e evs)
  from Cons.prems have "inv_resolution_any h (fut (parent (step s e))) (child (step s e))"
    by (auto intro: inv_resolution_any_step)
  moreover from Cons.prems have "awaited (child (step s e)) = Outer"
    by simp
  ultimately have
    "inv_resolution_any h (fut (parent (run (step s e) evs))) (child (run (step s e) evs))"
    by (rule Cons.IH)
  then show ?case by simp
qed

lemma inv_resolution_any_derive:
  "inv_resolution_any h (fut (parent (run (derive (ResolutionPromise h)) evs)))
     (child (run (derive (ResolutionPromise h)) evs))"
  by (rule inv_resolution_any_run) (simp_all add: derive_def inv_resolution_any_init)

subsection \<open>Resolution links cancelled before the finalizer\<close>

lemma direct_cancelled_cancel:
  assumes "inv_resolution_any h None l"
  shows "direct_cancelled (snd (cancel l))"
proof -
  have c: "cancel l = Task_cancel (l\<lparr>direct_cancellation := True\<rparr>)"
    using assms by (simp add: inv_resolution_any_def cancel_def Promise_cancel_def)
  show ?thesis
    using assms unfolding c
    by (cases "l\<lparr>direct_cancellation := True\<rparr>" rule: Task_cancel_cases)
       (auto simp: inv_resolution_any_def direct_cancelled_def)
qed

lemma direct_cancelled_cancel_again:
  assumes "direct_cancelled l"
  shows "direct_cancelled (snd (cancel l))"
proof -
  have c: "cancel l = Task_cancel (l\<lparr>direct_cancellation := True\<rparr>)"
    using assms by (auto simp: direct_cancelled_def cancel_def Promise_cancel_def)
  show ?thesis
    using assms unfolding c
    by (cases "l\<lparr>direct_cancellation := True\<rparr>" rule: Task_cancel_cases)
       (auto simp: direct_cancelled_def)
qed

lemma direct_cancelled_inner_done:
  "direct_cancelled l \<Longrightarrow> direct_cancelled (inner_done p l)"
  by (auto simp: direct_cancelled_def inner_done_def)

lemma direct_cancelled_awaitable_done:
  "direct_cancelled l \<Longrightarrow> direct_cancelled (awaitable_done r l)"
  by (auto simp: direct_cancelled_def awaitable_done_def split: pc.splits)

lemma direct_cancelled_Task_step:
  assumes "direct_cancelled l"
  shows "direct_cancelled (Task_step l) \<and> fut (Task_step l) = Cancelled"
proof (cases l rule: Task_step_cases)
  case Done
  then show ?thesis using assms by (auto simp: direct_cancelled_def)
next
  case Thrown
  then show ?thesis using assms by (auto simp: direct_cancelled_def complete_def)
next
  case Suspend
  then show ?thesis using assms by (auto simp: direct_cancelled_def)
next
  case (Enter r)
  then show ?thesis using assms by (auto simp: direct_cancelled_def)
next
  case (Idle sv)
  then show ?thesis using assms by (auto simp: direct_cancelled_def)
next
  case (Resume r)
  then show ?thesis using assms
    by (auto simp: direct_cancelled_def wrapper_def ResolutionPromise_wrapper_def complete_def)
next
  case (ResumeResult sv r)
  then show ?thesis using assms by (auto simp: direct_cancelled_def)
qed

lemma direct_cancelled_step:
  assumes "direct_cancelled (child s)" and "awaited (child s) = Outer"
  shows "direct_cancelled (child (step s e))"
  using assms
  by (cases e)
     (simp_all add: step_shielded direct_cancelled_Task_step direct_cancelled_cancel_again
        direct_cancelled_inner_done direct_cancelled_awaitable_done)

lemma direct_cancelled_run:
  "direct_cancelled (child s) \<Longrightarrow> awaited (child s) = Outer \<Longrightarrow>
     direct_cancelled (child (run s evs))"
proof (induction evs arbitrary: s)
  case Nil
  then show ?case by simp
next
  case (Cons e evs)
  from Cons.prems have "direct_cancelled (child (step s e))"
    by (rule direct_cancelled_step)
  moreover from Cons.prems have "awaited (child (step s e)) = Outer"
    by simp
  ultimately have "direct_cancelled (child (run (step s e) evs))"
    by (rule Cons.IH)
  then show ?case by simp
qed

section \<open>Shielding\<close>

lemma parent_settled_step:
  assumes "awaited (child s) = Outer" and "fut (parent s) = Some x"
  shows "fut (parent (step s e)) = Some x"
  using assms by (cases e) (simp_all add: step_shielded)

lemma parent_settled_run:
  "awaited (child s) = Outer \<Longrightarrow> fut (parent s) = Some x \<Longrightarrow>
     fut (parent (run s evs)) = Some x"
proof (induction evs arbitrary: s)
  case Nil
  then show ?case by simp
next
  case (Cons e evs)
  from Cons.prems have "fut (parent (step s e)) = Some x"
    by (rule parent_settled_step)
  moreover from Cons.prems have "awaited (child (step s e)) = Outer"
    by simp
  ultimately have "fut (parent (run (step s e) evs)) = Some x"
    using Cons.IH by blast
  then show ?case by simp
qed

text \<open>
  What the call of \<^verbatim>\<open>shield\<close> is for. Were the parent itself passed to \<^verbatim>\<open>_wrapper\<close>, the
  task would wait for the parent's own future, \<^verbatim>\<open>cancel()\<close> on the link would cancel that
  future, and the parent would never reach the outcome of its computation.
\<close>

lemma unshielded_cancel_reaches_parent:
  "fut (parent (run (derive_unshielded (FulfillmentPromise add_one))
      [Step, Cancel, Settle (Inr 5)])) = Cancelled"
  by (simp add: derive_unshielded_def step_def on_task_def Let_def Task_step_def Task_cancel_def
      Promise_cancel_def cancel_def init_defs)

text \<open>
  Claim C1. \<^verbatim>\<open>ChainPromise.__init__\<close> passes to the wrapper the future \<^verbatim>\<open>shield\<close> returns
  for the parent. For every link that awaits a future returned by \<^verbatim>\<open>shield\<close>, in any
  state \<open>s\<close> and whatever happens before (\<open>evs1\<close>) and after (\<open>evs2\<close>): a call of
  \<^verbatim>\<open>cancel()\<close> on the link leaves the parent exactly as it is in the run without the
  call; a parent still pending at the call reaches the outcome \<open>x\<close> of its own
  computation afterwards; and the callback of the link is not invoked from the call on:
  the log of invocations stays what it was then (empty when the link is cancelled
  before its callback has started).
\<close>

theorem cancel_link_shields_parent:
  assumes "awaited (child s) = shield r"
  shows "parent (run s (evs1 @ Cancel # evs2)) = parent (run s (evs1 @ evs2)) \<and>
         (fut (parent (run s evs1)) = Pending \<longrightarrow>
            fut (parent (run s (evs1 @ Cancel # Settle x # evs2))) = Some x) \<and>
         calls (child (run s (evs1 @ Cancel # evs2))) = calls (child (run s evs1)) \<and>
         awaited (child (derive k)) = shield Inner"
proof -
  let ?t = "run s evs1"
  have sh: "awaited (child ?t) = Outer"
    using assms by (simp add: shield_def)
  have shc: "awaited (child (step ?t Cancel)) = Outer"
    using sh by simp
  have "parent (step ?t Cancel) = parent ?t"
    using sh by (rule parent_step_Cancel)
  with shc sh have "parent (run (step ?t Cancel) evs2) = parent (run ?t evs2)"
    by (rule parent_run_cong)
  then have a: "parent (run s (evs1 @ Cancel # evs2)) = parent (run s (evs1 @ evs2))"
    by (simp add: run_append)
  have b: "fut (parent (run s (evs1 @ Cancel # Settle x # evs2))) = Some x"
    if p: "fut (parent ?t) = Pending"
  proof -
    let ?u = "step (step ?t Cancel) (Settle x)"
    have "fut (parent ?u) = Some x"
      using sh p by (simp add: step_shielded)
    moreover have "awaited (child ?u) = Outer"
      using sh by simp
    ultimately have "fut (parent (run ?u evs2)) = Some x"
      using parent_settled_run by blast
    then show ?thesis
      by (simp add: run_append)
  qed
  have c: "calls (child (run s (evs1 @ Cancel # evs2))) = calls (child ?t)"
    using calls_after_Cancel [OF sh, of evs2] by (simp add: run_append)
  have d: "awaited (child (derive k)) = shield Inner"
    by (simp add: shield_def)
  from a b c d show ?thesis by blast
qed

theorem cancel_link_shields_parent_witness:
  "awaited (child (derive (FulfillmentPromise add_one))) = shield Inner \<and>
   fut (parent (run (derive (FulfillmentPromise add_one)) [Step])) = Pending \<and>
   fut (parent (run (derive (FulfillmentPromise add_one))
      ([Step] @ Cancel # Settle (Inr 5) # [Propagate, Step]))) = Fulfilled 5 \<and>
   calls (child (run (derive (FulfillmentPromise add_one))
      ([Step] @ Cancel # Settle (Inr 5) # [Propagate, Step]))) = [] \<and>
   fut (child (run (derive (FulfillmentPromise add_one))
      ([Step] @ Cancel # Settle (Inr 5) # [Propagate, Step]))) = Cancelled"
  using cancel_link_shields_parent
    [of "derive (FulfillmentPromise add_one)" Inner "[Step]" "[Propagate, Step]" "Inr 5"
        "FulfillmentPromise add_one"]
    cancel_link_shields_parent
    [of "derive (FulfillmentPromise add_one)" Inner "[Step]" "Settle (Inr 5) # [Propagate, Step]"
        "Inr 5" "FulfillmentPromise add_one"]
  by (simp add: step_shielded Task_step_def Task_cancel_def Promise_cancel_def cancel_def
      inner_done_def wrapper_defs init_defs add_one_def)

section \<open>Fulfillment links\<close>



section \<open>Cancelling a fulfillment link whose callback has started\<close>

text \<open>
  The link of \<^verbatim>\<open>chain_link/fulfillment.py\<close> in the same situation: the request is refused
  and the link is left as it is, still waiting for the awaitable of its callback.
\<close>

lemma chain_link_fulfillment_refuses_cancel:
  "ChainLinkPromise_cancel (child (run (derive (FulfillmentPromise returns_pending))
      [Step, Settle (Inr 5), Propagate, Step])) =
     (False, child (run (derive (FulfillmentPromise returns_pending))
      [Step, Settle (Inr 5), Propagate, Step]))"
  by (simp add: ChainLinkPromise_cancel_def step_shielded Task_step_def inner_done_def wrapper_defs
      init_defs returns_pending_def)

text \<open>
  Claim C7 against \<^verbatim>\<open>FulfillmentPromise\<close> of \<^verbatim>\<open>promise.py\<close>. The parent fulfills with 5,
  the callback is invoked and returns an awaitable that is still pending, so the wrapper
  is suspended in \<^verbatim>\<open>resolve_awaitable\<close>. A call of \<^verbatim>\<open>cancel()\<close> at that point is accepted,
  and at its next step the link is cancelled, before the awaitable has completed; the
  awaitable completing later changes nothing.
\<close>

theorem fulfillment_link_cancelled_after_callback_start:
  "calls (child (run (derive (FulfillmentPromise returns_pending))
      [Step, Settle (Inr 5), Propagate, Step])) = [ArgValue 5] \<and>
   fut (child (run (derive (FulfillmentPromise returns_pending))
      [Step, Settle (Inr 5), Propagate, Step])) = Pending \<and>
   result_fut (child (run (derive (FulfillmentPromise returns_pending))
      [Step, Settle (Inr 5), Propagate, Step])) = Pending \<and>
   fst (cancel (child (run (derive (FulfillmentPromise returns_pending))
      [Step, Settle (Inr 5), Propagate, Step]))) = True \<and>
   fut (child (run (derive (FulfillmentPromise returns_pending))
      [Step, Settle (Inr 5), Propagate, Step, Cancel, Step])) = Cancelled \<and>
   fut (child (run (derive (FulfillmentPromise returns_pending))
      [Step, Settle (Inr 5), Propagate, Step, Cancel, Step, AwaitableSettle (Inr 7), Step])) =
      Cancelled"
  by (simp add: step_shielded Task_step_def Task_cancel_def Promise_cancel_def cancel_def
      inner_done_def awaitable_done_def wrapper_defs init_defs returns_pending_def)

section \<open>Rejection links\<close>

text \<open>
  Claim C2. Take a link \<^verbatim>\<open>c = v.catch(g)\<close> at the state \<open>s\<close> reached by any events, calls
  of \<^verbatim>\<open>c.cancel()\<close> included. If the parent is cancelled, \<open>g\<close> has not been invoked, the
  link is pending or cancelled (never fulfilled or rejected with another error), and
  once the cancellation is propagated and the task stepped the link is cancelled: it
  has re-raised the cancellation, and \<open>g\<close> is still not invoked.
\<close>

theorem rejection_link_never_catches_cancellation:
  assumes "s = run (derive (RejectionPromise g)) evs" and "fut (parent s) = Cancelled"
  shows "calls (child s) = [] \<and>
         (fut (child s) = Pending \<or> fut (child s) = Cancelled) \<and>
         fut (child (run s [Propagate, Step])) = Cancelled \<and>
         calls (child (run s [Propagate, Step])) = []"
proof -
  have sh: "awaited (child s) = Outer"
    using assms by simp
  let ?s' = "run s [Propagate, Step]"
  have inv: "inv_rejection_any g (fut (parent s)) (child s)"
    using assms(1) by (simp add: inv_rejection_any_derive)
  have "inv_rejection_any g (fut (parent (run (derive (RejectionPromise g))
       (evs @ [Propagate, Step])))) (child (run (derive (RejectionPromise g))
       (evs @ [Propagate, Step])))"
    by (rule inv_rejection_any_derive)
  then have inv': "inv_rejection_any g (fut (parent s)) (child ?s')"
    using assms(1) by (simp add: run_append step_shielded)
  have st: "started (child ?s')"
    by (rule started_after_parent [OF sh]) (simp add: assms(2))
  have a: "calls (child s) = [] \<and> (fut (child s) = Pending \<or> fut (child s) = Cancelled)"
    using inv assms(2) by (auto simp: inv_rejection_any_def)
  have b: "fut (child ?s') = Cancelled \<and> calls (child ?s') = []"
    using inv' st assms(2) by (auto simp: inv_rejection_any_def started_def)
  from a b show ?thesis by simp
qed

theorem rejection_link_never_catches_cancellation_witness:
  "fut (parent (run (derive (RejectionPromise recovered))
      [Step, Settle (Inl CancelledError)])) = Cancelled \<and>
   calls (child (run (run (derive (RejectionPromise recovered))
      [Step, Settle (Inl CancelledError)]) [Propagate, Step])) = [] \<and>
   fut (child (run (run (derive (RejectionPromise recovered))
      [Step, Settle (Inl CancelledError)]) [Propagate, Step])) = Cancelled"
  using rejection_link_never_catches_cancellation
    [of "run (derive (RejectionPromise recovered)) [Step, Settle (Inl CancelledError)]"
        recovered "[Step, Settle (Inl CancelledError)]"]
  by (simp add: step_shielded Task_step_def inner_done_def wrapper_defs init_defs)




text \<open>
  Claim C9. The callback of a rejection link is invoked only on instances of
  \<^verbatim>\<open>Exception\<close>: in the state \<open>s\<close> reached by any events, every logged invocation has
  such an argument. When the parent has failed with a base-level exception (neither an
  instance of \<^verbatim>\<open>Exception\<close> nor the cancellation), the callback is never invoked, and a
  link on which \<^verbatim>\<open>cancel()\<close> is not called ends with that same exception.
\<close>

theorem rejection_link_only_catches_Exception:
  assumes "s = run (derive (RejectionPromise g)) evs"
  shows "(\<forall>a \<in> set (calls (child s)). \<exists>m. a = ArgExc (Exception m)) \<and>
         (\<forall>m. fut (parent s) = Rejected (BaseException m) \<longrightarrow>
            calls (child s) = [] \<and>
            calls (child (run s [Propagate, Step])) = [] \<and>
            (Cancel \<notin> set evs \<longrightarrow>
               (fut (child s) = Pending \<or> fut (child s) = Rejected (BaseException m)) \<and>
               fut (child (run s [Propagate, Step])) = Rejected (BaseException m)))"
proof -
  have sh: "awaited (child s) = Outer"
    using assms by simp
  let ?s' = "run s [Propagate, Step]"
  have inv: "inv_rejection_any g (fut (parent s)) (child s)"
    using assms by (simp add: inv_rejection_any_derive)
  have "inv_rejection_any g (fut (parent (run (derive (RejectionPromise g))
       (evs @ [Propagate, Step])))) (child (run (derive (RejectionPromise g))
       (evs @ [Propagate, Step])))"
    by (rule inv_rejection_any_derive)
  then have inv': "inv_rejection_any g (fut (parent s)) (child ?s')"
    using assms by (simp add: run_append step_shielded)
  have a: "\<forall>a \<in> set (calls (child s)). \<exists>m. a = ArgExc (Exception m)"
    using inv by (auto simp: inv_rejection_any_def)
  have b: "calls (child s) = [] \<and> calls (child ?s') = []"
    if "fut (parent s) = Rejected (BaseException m)" for m
    using inv inv' that by (auto simp: inv_rejection_any_def)
  have c: "(fut (child s) = Pending \<or> fut (child s) = Rejected (BaseException m)) \<and>
           fut (child ?s') = Rejected (BaseException m)"
    if p: "fut (parent s) = Rejected (BaseException m)" and nc: "Cancel \<notin> set evs" for m
  proof -
    have i: "inv_rejection g (fut (parent s)) (child s)"
      using assms nc by (simp add: inv_rejection_derive)
    have "Cancel \<notin> set (evs @ [Propagate, Step])"
      using nc by simp
    then have "inv_rejection g (fut (parent (run (derive (RejectionPromise g))
         (evs @ [Propagate, Step])))) (child (run (derive (RejectionPromise g))
         (evs @ [Propagate, Step])))"
      by (rule inv_rejection_derive)
    then have i': "inv_rejection g (fut (parent s)) (child ?s')"
      using assms by (simp add: run_append step_shielded)
    have st: "started (child ?s')"
      by (rule started_after_parent [OF sh]) (simp add: p)
    show ?thesis
      using i i' st p by (auto simp: inv_rejection_def started_def)
  qed
  from a b c show ?thesis by blast
qed

theorem rejection_link_only_catches_Exception_witness:
  "calls (child (run (derive (RejectionPromise recovered))
      [Step, Settle (Inl (Exception ''E'')), Propagate, Step])) = [ArgExc (Exception ''E'')] \<and>
   fut (parent (run (derive (RejectionPromise recovered))
      [Step, Settle (Inl (BaseException ''GeneratorExit''))])) =
      Rejected (BaseException ''GeneratorExit'') \<and>
   Cancel \<notin> set [Step, Settle (Inl (BaseException ''GeneratorExit'') :: string outcome)] \<and>
   calls (child (run (run (derive (RejectionPromise recovered))
      [Step, Settle (Inl (BaseException ''GeneratorExit''))]) [Propagate, Step])) = [] \<and>
   fut (child (run (run (derive (RejectionPromise recovered))
      [Step, Settle (Inl (BaseException ''GeneratorExit''))]) [Propagate, Step])) =
      Rejected (BaseException ''GeneratorExit'')"
  using rejection_link_only_catches_Exception
    [of "run (derive (RejectionPromise recovered))
           [Step, Settle (Inl (Exception ''E'')), Propagate, Step]"
        recovered "[Step, Settle (Inl (Exception ''E'')), Propagate, Step]"]
    rejection_link_only_catches_Exception
    [of "run (derive (RejectionPromise recovered))
           [Step, Settle (Inl (BaseException ''GeneratorExit''))]"
        recovered "[Step, Settle (Inl (BaseException ''GeneratorExit''))]"]
  by (simp add: step_shielded Task_step_def inner_done_def wrapper_defs init_defs recovered_def)

section \<open>Resolution links\<close>

text \<open>
  Claim C5. Take a link \<^verbatim>\<open>v.lastly(h)\<close> at the state \<open>s\<close> reached by any events.

  If \<^verbatim>\<open>cancel()\<close> has not been called on the link, \<open>h\<close> has been invoked at most once.
  Once the parent is done (fulfilled, rejected or cancelled) and its outcome is
  propagated and the task stepped, \<open>h\<close> has been invoked exactly once, and what \<open>h\<close> did
  shows in the link: the link is rejected with the error \<open>h\<close> raised; or it has the
  parent's outcome, \<open>h\<close> having returned a plain value; or it holds the future of the
  awaitable \<open>h\<close> returned and, while that is pending, is suspended on it with the
  parent's outcome kept aside. The link is done at the latest when that awaitable has
  settled and the task is stepped, and a done link has invoked \<open>h\<close> exactly once, with
  the same effects.

  If \<^verbatim>\<open>cancel()\<close> is called on the link while the parent is still pending, \<open>h\<close> is never
  invoked, whatever happens afterwards: nothing of \<open>h\<close> shows in the link, which is
  pending or cancelled, and cancelled after its next step, also for an \<open>h\<close> that raises.
\<close>

theorem resolution_link_finalizer_once:
  assumes "s = run (derive (ResolutionPromise h)) evs"
  shows
    "(Cancel \<notin> set evs \<longrightarrow>
        (calls (child s) = [] \<or> calls (child s) = [NoArgs]) \<and>
        (fut (parent s) \<noteq> Pending \<longrightarrow>
           calls (child (run s [Propagate, Step])) = [NoArgs] \<and>
           (\<forall>e. h () = Inl e \<longrightarrow> fut (child (run s [Propagate, Step])) = Rejected e) \<and>
           (\<forall>x. h () = Inr (Plain x) \<longrightarrow>
              fut (child (run s [Propagate, Step])) = fut (parent s)) \<and>
           (\<forall>a. h () = Inr (Awaitable a) \<longrightarrow>
              (a \<noteq> Pending \<longrightarrow>
                 result_fut (child (run s [Propagate, Step])) = a \<and>
                 fut (child (run s [Propagate, Step])) \<noteq> Pending) \<and>
              (fut (child (run s [Propagate, Step])) = Pending \<longrightarrow>
                 pc (child (run s [Propagate, Step])) = AwaitResult (fut (parent s)))) \<and>
           fut (child (run s [Propagate, Step, AwaitableSettle r, Step])) \<noteq> Pending) \<and>
        (fut (child s) \<noteq> Pending \<longrightarrow>
           fut (parent s) \<noteq> Pending \<and> calls (child s) = [NoArgs] \<and>
           (\<forall>e. h () = Inl e \<longrightarrow> fut (child s) = Rejected e) \<and>
           (\<forall>x. h () = Inr (Plain x) \<longrightarrow> fut (child s) = fut (parent s)) \<and>
           (\<forall>a. h () = Inr (Awaitable a) \<longrightarrow>
              result_fut (child s) \<noteq> Pending \<and>
              (a \<noteq> Pending \<longrightarrow> result_fut (child s) = a)))) \<and>
     (fut (parent s) = Pending \<longrightarrow>
        calls (child (run s (Cancel # evs2))) = [] \<and>
        (fut (child (run s (Cancel # evs2))) = Pending \<or>
         fut (child (run s (Cancel # evs2))) = Cancelled) \<and>
        calls (child (run s (Cancel # evs2 @ [Step]))) = [] \<and>
        fut (child (run s (Cancel # evs2 @ [Step]))) = Cancelled)"
proof -
  let ?s' = "run s [Propagate, Step]"
  have sh: "awaited (child s) = Outer"
    using assms by simp
  have a: "(calls (child s) = [] \<or> calls (child s) = [NoArgs]) \<and>
        (fut (parent s) \<noteq> Pending \<longrightarrow>
           calls (child ?s') = [NoArgs] \<and>
           (\<forall>e. h () = Inl e \<longrightarrow> fut (child ?s') = Rejected e) \<and>
           (\<forall>x. h () = Inr (Plain x) \<longrightarrow> fut (child ?s') = fut (parent s)) \<and>
           (\<forall>a. h () = Inr (Awaitable a) \<longrightarrow>
              (a \<noteq> Pending \<longrightarrow> result_fut (child ?s') = a \<and> fut (child ?s') \<noteq> Pending) \<and>
              (fut (child ?s') = Pending \<longrightarrow> pc (child ?s') = AwaitResult (fut (parent s)))) \<and>
           fut (child (run s [Propagate, Step, AwaitableSettle r, Step])) \<noteq> Pending) \<and>
        (fut (child s) \<noteq> Pending \<longrightarrow>
           fut (parent s) \<noteq> Pending \<and> calls (child s) = [NoArgs] \<and>
           (\<forall>e. h () = Inl e \<longrightarrow> fut (child s) = Rejected e) \<and>
           (\<forall>x. h () = Inr (Plain x) \<longrightarrow> fut (child s) = fut (parent s)) \<and>
           (\<forall>a. h () = Inr (Awaitable a) \<longrightarrow>
              result_fut (child s) \<noteq> Pending \<and>
              (a \<noteq> Pending \<longrightarrow> result_fut (child s) = a)))"
    if nc: "Cancel \<notin> set evs"
  proof -
    have inv: "inv_resolution h (fut (parent s)) (child s)"
      using assms nc by (simp add: inv_resolution_derive)
    have "Cancel \<notin> set (evs @ [Propagate, Step])"
      using nc by simp
    then have "inv_resolution h (fut (parent (run (derive (ResolutionPromise h))
         (evs @ [Propagate, Step])))) (child (run (derive (ResolutionPromise h))
         (evs @ [Propagate, Step])))"
      by (rule inv_resolution_derive)
    then have inv': "inv_resolution h (fut (parent s)) (child ?s')"
      using assms by (simp add: run_append step_shielded)
    have st: "started (child ?s')" if "fut (parent s) \<noteq> Pending"
      using sh that by (rule started_after_parent)
    have 1: "calls (child s) = [] \<or> calls (child s) = [NoArgs]"
      using inv by (auto simp: inv_resolution_def)
    have 2: "calls (child ?s') = [NoArgs] \<and>
           (\<forall>e. h () = Inl e \<longrightarrow> fut (child ?s') = Rejected e) \<and>
           (\<forall>x. h () = Inr (Plain x) \<longrightarrow> fut (child ?s') = fut (parent s)) \<and>
           (\<forall>a. h () = Inr (Awaitable a) \<longrightarrow>
              (a \<noteq> Pending \<longrightarrow> result_fut (child ?s') = a \<and> fut (child ?s') \<noteq> Pending) \<and>
              (fut (child ?s') = Pending \<longrightarrow> pc (child ?s') = AwaitResult (fut (parent s))))"
      if "fut (parent s) \<noteq> Pending"
      using inv' st that by (auto simp: inv_resolution_def started_def)
    have 3: "fut (child (run s [Propagate, Step, AwaitableSettle r, Step])) \<noteq> Pending"
      if "fut (parent s) \<noteq> Pending"
      using sh that by (rule done_after_parent)
    have 4: "fut (parent s) \<noteq> Pending \<and> calls (child s) = [NoArgs] \<and>
           (\<forall>e. h () = Inl e \<longrightarrow> fut (child s) = Rejected e) \<and>
           (\<forall>x. h () = Inr (Plain x) \<longrightarrow> fut (child s) = fut (parent s)) \<and>
           (\<forall>a. h () = Inr (Awaitable a) \<longrightarrow>
              result_fut (child s) \<noteq> Pending \<and>
              (a \<noteq> Pending \<longrightarrow> result_fut (child s) = a))"
      if "fut (child s) \<noteq> Pending"
      using inv that by (auto simp: inv_resolution_def)
    from 1 2 3 4 show ?thesis by blast
  qed
  have b: "calls (child (run s (Cancel # evs2))) = [] \<and>
        (fut (child (run s (Cancel # evs2))) = Pending \<or>
         fut (child (run s (Cancel # evs2))) = Cancelled) \<and>
        calls (child (run s (Cancel # evs2 @ [Step]))) = [] \<and>
        fut (child (run s (Cancel # evs2 @ [Step]))) = Cancelled"
    if p: "fut (parent s) = Pending"
  proof -
    let ?t = "run (step s Cancel) evs2"
    have "inv_resolution_any h (fut (parent s)) (child s)"
      using assms by (simp add: inv_resolution_any_derive)
    with p have "direct_cancelled (snd (cancel (child s)))"
      by (simp add: direct_cancelled_cancel)
    then have "direct_cancelled (child (step s Cancel))"
      using sh by (simp add: step_shielded)
    moreover have "awaited (child (step s Cancel)) = Outer"
      using sh by simp
    ultimately have d: "direct_cancelled (child ?t)"
      by (rule direct_cancelled_run)
    have sht: "awaited (child ?t) = Outer"
      using sh by simp
    have e: "child (run s (Cancel # evs2 @ [Step])) = Task_step (child ?t)"
      using sht by (simp add: run_append step_shielded)
    have 1: "calls (child ?t) = [] \<and> (fut (child ?t) = Pending \<or> fut (child ?t) = Cancelled)"
      using d by (auto simp: direct_cancelled_def)
    have 2: "calls (Task_step (child ?t)) = [] \<and> fut (Task_step (child ?t)) = Cancelled"
      using direct_cancelled_Task_step [OF d] by (auto simp: direct_cancelled_def)
    from 1 2 e show ?thesis by simp
  qed
  from a b show ?thesis by blast
qed

theorem resolution_link_finalizer_once_witness:
  "Cancel \<notin> set [Step, Settle (Inl CancelledError :: int outcome)] \<and>
   fut (parent (run (derive (ResolutionPromise failing_finalizer))
      [Step, Settle (Inl CancelledError)])) = Cancelled \<and>
   calls (child (run (run (derive (ResolutionPromise failing_finalizer))
      [Step, Settle (Inl CancelledError)]) [Propagate, Step])) = [NoArgs] \<and>
   fut (child (run (run (derive (ResolutionPromise failing_finalizer))
      [Step, Settle (Inl CancelledError)]) [Propagate, Step])) =
      Rejected (Exception ''cleanup failed'') \<and>
   fut (parent (run (derive (ResolutionPromise failing_finalizer)) [Step])) = Pending \<and>
   calls (child (run (run (derive (ResolutionPromise failing_finalizer)) [Step])
      (Cancel # [Settle (Inr 1), Propagate] @ [Step]))) = [] \<and>
   fut (child (run (run (derive (ResolutionPromise failing_finalizer)) [Step])
      (Cancel # [Settle (Inr 1), Propagate] @ [Step]))) = Cancelled"
  using resolution_link_finalizer_once
    [of "run (derive (ResolutionPromise failing_finalizer)) [Step, Settle (Inl CancelledError)]"
        failing_finalizer "[Step, Settle (Inl CancelledError)]" "Inr 0" "[]"]
    resolution_link_finalizer_once
    [of "run (derive (ResolutionPromise failing_finalizer)) [Step]"
        failing_finalizer "[Step]" "Inr 0" "[Settle (Inr 1), Propagate]"]
  by (simp add: step_shielded Task_step_def Task_cancel_def Promise_cancel_def cancel_def
      inner_done_def wrapper_defs init_defs failing_finalizer_def)




section \<open>Direct cancellation of a resolution link\<close>

text \<open>
  Claim C10. On a resolution link, in any state and whether or not the request is
  accepted, a call of \<^verbatim>\<open>cancel()\<close> sets the direct-cancellation flag for good: after
  any further events the flag is still set and the finalizer has not been invoked again.
  In particular, if the wrapper of such a link is nevertheless resumed with an outcome
  \<open>r\<close> of the parent (the request did not stop the link), it completes with \<open>r\<close> and
  the finalizer is skipped.
\<close>

theorem cancel_latches_direct_cancellation:
  assumes "variant (child s) = ResolutionPromise h"
  shows "direct_cancellation (child (run (step s Cancel) evs)) \<and>
         calls (child (run (step s Cancel) evs)) = calls (child s) \<and>
         wrapper (child (run (step s Cancel) evs)) r =
           (child (run (step s Cancel) evs))\<lparr>fut := Some r\<rparr>"
proof -
  let ?l = "child (run (step s Cancel) evs)"
  have v: "variant ?l = ResolutionPromise h"
    using assms by simp
  have v0: "variant (child (step s Cancel)) = ResolutionPromise h"
    using assms by simp
  have d0: "direct_cancellation (child (step s Cancel))"
    and c0: "calls (child (step s Cancel)) = calls (child s)"
    using flag_after_Cancel [OF assms] by simp_all
  have "direct_cancellation ?l \<and> calls ?l = calls (child (step s Cancel))"
    using v0 d0 by (rule flag_run)
  then have d: "direct_cancellation ?l" and c: "calls ?l = calls (child s)"
    using c0 by simp_all
  have w: "wrapper ?l r = ?l\<lparr>fut := Some r\<rparr>"
    using v d by (simp add: wrapper_def ResolutionPromise_wrapper_def complete_def)
  from d c w show ?thesis by simp
qed

theorem cancel_latches_direct_cancellation_witness:
  "variant (child (run (derive (ResolutionPromise (side_effect 0))) [Step, Settle (Inr 1)]))
     = ResolutionPromise (side_effect 0) \<and>
   direct_cancellation (child (run (step (run (derive (ResolutionPromise (side_effect 0)))
     [Step, Settle (Inr 1)]) Cancel) [Propagate, Step])) \<and>
   calls (child (run (step (run (derive (ResolutionPromise (side_effect 0)))
     [Step, Settle (Inr 1)]) Cancel) [Propagate, Step])) = [] \<and>
   fut (child (run (step (run (derive (ResolutionPromise (side_effect 0)))
     [Step, Settle (Inr 1)]) Cancel) [Propagate, Step])) = Cancelled"
  using cancel_latches_direct_cancellation
    [of "run (derive (ResolutionPromise (side_effect 0))) [Step, Settle (Inr 1)]"
        "side_effect 0" "[Propagate, Step]" "Inr 1"]
  by (simp add: step_shielded Task_step_def Task_cancel_def Promise_cancel_def cancel_def
      inner_done_def wrapper_defs init_defs)

section \<open>The management guard\<close>

lemma managed_link: "is_managed (ChainPromise_init k)"
  by (simp add: init_defs)

text \<open>
  Claim C8. \<^verbatim>\<open>then\<close>, \<^verbatim>\<open>catch\<close> and \<^verbatim>\<open>lastly\<close> on a promise that is not managed call the
  loop's exception handler exactly once (one context is appended to what the handler has
  received) and return the new link all the same; on a managed promise the handler is
  not called. A root is created unmanaged. A chain link is created managed and stays so
  in every run, so chaining off a chain link never calls the handler.
\<close>

theorem unmanaged_chaining_diagnostic:
  "(\<not> is_managed p \<longrightarrow>
      snd (Promise_then p f handler) =
        handler @ [''is being chained without proper life-cycle management.''] \<and>
      snd (Promise_catch p g handler) =
        handler @ [''is being chained without proper life-cycle management.''] \<and>
      snd (Promise_lastly p h handler) =
        handler @ [''is being chained without proper life-cycle management.'']) \<and>
   (is_managed p \<longrightarrow>
      snd (Promise_then p f handler) = handler \<and>
      snd (Promise_catch p g handler) = handler \<and>
      snd (Promise_lastly p h handler) = handler) \<and>
   fst (Promise_then p f handler) = ChainPromise_init (FulfillmentPromise f) \<and>
   fst (Promise_catch p g handler) = ChainPromise_init (RejectionPromise g) \<and>
   fst (Promise_lastly p h handler) = ChainPromise_init (ResolutionPromise h) \<and>
   \<not> is_managed (root st) \<and>
   is_managed (child (run (derive k) evs)) \<and>
   snd (Promise_then (child (run (derive k) evs)) f handler) = handler \<and>
   snd (Promise_catch (child (run (derive k) evs)) g handler) = handler \<and>
   snd (Promise_lastly (child (run (derive k) evs)) h handler) = handler"
proof -
  have m: "is_managed (child (run (derive k) evs))"
    using managed_link [of k] by (simp add: derive_def)
  have r: "\<not> is_managed (root st)"
    by (simp add: root_def Promise_init_def)
  show ?thesis
    using m r
    by (simp add: Promise_then_def Promise_catch_def Promise_lastly_def assert_management_def)
qed

theorem unmanaged_chaining_diagnostic_witness:
  "\<not> is_managed (root (Pending :: int state)) \<and>
   snd (Promise_then (root Pending) add_one []) =
     [''is being chained without proper life-cycle management.''] \<and>
   is_managed (enter (root (Pending :: int state))) \<and>
   snd (Promise_then (enter (root Pending)) add_one []) = [] \<and>
   snd (Promise_then (fst (Promise_then (root Pending) add_one [])) times_two []) = []"
  using unmanaged_chaining_diagnostic [of "root Pending" add_one "[]"]
    unmanaged_chaining_diagnostic [of "enter (root Pending)" add_one "[]"]
    unmanaged_chaining_diagnostic [of "fst (Promise_then (root Pending) add_one [])" times_two "[]"]
  by (simp add: root_def Promise_init_def enter_def managed_link)

end
